theory Spec2Isabelle
  imports Complex_Main "HOL-Library.Word"
begin

section \<open>IEEE 754 binary32 values\<close>

text \<open>
  The C++ type \<^verbatim>\<open>float\<close> of \<^verbatim>\<open>Oscillator.h\<close> is IEEE 754 binary32 (the target is
  an ARM Cortex-M4F; \<^verbatim>\<open>int\<close> has 32 bits). A value is a finite real (\<open>Fin 0\<close> is
  \<open>+0.0\<close>), the negative zero, an infinity or a NaN. Every arithmetic operation computes
  the exact real result and rounds it to the nearest binary32 value, ties to the even
  significand, with gradual underflow; no expression of the source can be contracted
  into a fused multiply-add.
\<close>

datatype f32 = Fin real | NZero | PInf | NInf | NaN

text \<open>Round to the nearest integer, ties to even.\<close>

definition rne :: "real \<Rightarrow> int" where
  "rne y = (let n = \<lfloor>y\<rfloor>; d = y - of_int n in
     if d < 1/2 then n else if 1/2 < d then n + 1 else if even n then n else n + 1)"

text \<open>
  The binade of a magnitude: the largest \<open>k\<close> in \<open>-125 .. 127\<close> with \<open>2^k \<le> a\<close>,
  and \<open>-126\<close> (the exponent shared by the subnormal numbers) when there is none.
\<close>

fun scan_exp :: "nat \<Rightarrow> real \<Rightarrow> int" where
  "scan_exp 0 a = -126"
| "scan_exp (Suc n) a = (if 2 powi (int n - 125) \<le> a then int n - 125 else scan_exp n a)"

definition expo :: "real \<Rightarrow> int" where
  "expo x = scan_exp 253 \<bar>x\<bar>"

text \<open>The spacing of binary32 values around \<open>x\<close>: 24 significant bits.\<close>

definition ulp :: "real \<Rightarrow> real" where
  "ulp x = 2 powi (expo x - 23)"

definition rnd :: "real \<Rightarrow> real" where
  "rnd x = of_int (rne (x / ulp x)) * ulp x"

text \<open>
  Rounding a real to binary32: overflow gives an infinity, and a negative result that
  rounds to zero is the negative zero.
\<close>

definition fl :: "real \<Rightarrow> f32" where
  "fl x = (let r = rnd x in
     if 2 powi 128 \<le> \<bar>r\<bar> then (if 0 < x then PInf else NInf)
     else if r = 0 \<and> x < 0 then NZero
     else Fin r)"

text \<open>A \<open>Fin r\<close> is a binary32 value when rounding leaves it alone.\<close>

definition is_f32 :: "f32 \<Rightarrow> bool" where
  "is_f32 a = (case a of Fin r \<Rightarrow> fl r = Fin r | _ \<Rightarrow> True)"

fun rv :: "f32 \<Rightarrow> real" where
  "rv (Fin r) = r"
| "rv a = 0"

fun sign_neg :: "f32 \<Rightarrow> bool" where
  "sign_neg (Fin r) = (r < 0)"
| "sign_neg NZero = True"
| "sign_neg PInf = False"
| "sign_neg NInf = True"
| "sign_neg NaN = False"

definition is_inf :: "f32 \<Rightarrow> bool" where
  "is_inf a = (a = PInf \<or> a = NInf)"

definition is_zero :: "f32 \<Rightarrow> bool" where
  "is_zero a = (a = Fin 0 \<or> a = NZero)"

definition fzero :: "bool \<Rightarrow> f32" where
  "fzero neg = (if neg then NZero else Fin 0)"

definition finf :: "bool \<Rightarrow> f32" where
  "finf neg = (if neg then NInf else PInf)"

fun fneg :: "f32 \<Rightarrow> f32" where
  "fneg (Fin r) = (if r = 0 then NZero else Fin (- r))"
| "fneg NZero = Fin 0"
| "fneg PInf = NInf"
| "fneg NInf = PInf"
| "fneg NaN = NaN"

definition fadd :: "f32 \<Rightarrow> f32 \<Rightarrow> f32" where
  "fadd a b =
     (if a = NaN \<or> b = NaN then NaN
      else if is_inf a then (if is_inf b \<and> a \<noteq> b then NaN else a)
      else if is_inf b then b
      else if rv a + rv b = 0 then fzero (a = NZero \<and> b = NZero)
      else fl (rv a + rv b))"

definition fsub :: "f32 \<Rightarrow> f32 \<Rightarrow> f32" where
  "fsub a b = fadd a (fneg b)"

definition fmul :: "f32 \<Rightarrow> f32 \<Rightarrow> f32" where
  "fmul a b =
     (if a = NaN \<or> b = NaN then NaN
      else if is_inf a \<or> is_inf b then
        (if is_zero a \<or> is_zero b then NaN else finf (sign_neg a \<noteq> sign_neg b))
      else if rv a * rv b = 0 then fzero (sign_neg a \<noteq> sign_neg b)
      else fl (rv a * rv b))"

definition fdiv :: "f32 \<Rightarrow> f32 \<Rightarrow> f32" where
  "fdiv a b =
     (if a = NaN \<or> b = NaN then NaN
      else if is_inf a then (if is_inf b then NaN else finf (sign_neg a \<noteq> sign_neg b))
      else if is_inf b then fzero (sign_neg a \<noteq> sign_neg b)
      else if is_zero b then (if is_zero a then NaN else finf (sign_neg a \<noteq> sign_neg b))
      else if is_zero a then fzero (sign_neg a \<noteq> sign_neg b)
      else fl (rv a / rv b))"

text \<open>The comparison \<^verbatim>\<open>a >= b\<close>: false as soon as one side is a NaN.\<close>

fun rank :: "f32 \<Rightarrow> int" where
  "rank NInf = -1"
| "rank PInf = 1"
| "rank a = 0"

definition fge :: "f32 \<Rightarrow> f32 \<Rightarrow> bool" where
  "fge a b =
     (a \<noteq> NaN \<and> b \<noteq> NaN \<and> (rank b < rank a \<or> (rank b = rank a \<and> rv b \<le> rv a)))"

definition flt :: "f32 \<Rightarrow> f32 \<Rightarrow> bool" where
  "flt a b =
     (a \<noteq> NaN \<and> b \<noteq> NaN \<and> (rank a < rank b \<or> (rank a = rank b \<and> rv a < rv b)))"

text \<open>The conversion of a C \<^verbatim>\<open>int\<close> to \<^verbatim>\<open>float\<close>.\<close>

definition f32_of_int :: "int \<Rightarrow> f32" where
  "f32_of_int i = fl (of_int i)"

text \<open>
  Undefined behaviour of the C++ program is a value of the model: the cast
  \<^verbatim>\<open>(int)x\<close> of a value whose truncation is no 32-bit \<^verbatim>\<open>int\<close>, and an array
  access outside the array.
\<close>

datatype ub = Cast_Out_Of_Range | Index_Out_Of_Bounds

text \<open>The cast \<^verbatim>\<open>(int)x\<close> truncates towards zero.\<close>

definition trunc :: "real \<Rightarrow> int" where
  "trunc r = (if 0 \<le> r then \<lfloor>r\<rfloor> else \<lceil>r\<rceil>)"

fun int_of_f32 :: "f32 \<Rightarrow> ub + int" where
  "int_of_f32 (Fin r) =
     (if - (2 ^ 31) \<le> trunc r \<and> trunc r < 2 ^ 31 then Inr (trunc r) else Inl Cast_Out_Of_Range)"
| "int_of_f32 NZero = Inr 0"
| "int_of_f32 a = Inl Cast_Out_Of_Range"

section \<open>The oscillator\<close>

definition TAB_LEN :: "16 word" where
  "TAB_LEN = 2048"

definition M_2PI :: f32 where
  "M_2PI = fl 6.2831853071795862319959"

text \<open>
  The members of \<^verbatim>\<open>class Oscillator\<close>. The array \<^verbatim>\<open>float wavetable[TAB_LEN]\<close>
  is a map from indices; \<open>table_read\<close> checks the bounds.
\<close>

record oscillator =
  wavetable :: "int \<Rightarrow> f32"
  idx :: f32
  idx_inc :: f32
  f0 :: f32
  fs :: f32

definition table_read :: "(int \<Rightarrow> f32) \<Rightarrow> int \<Rightarrow> ub + f32" where
  "table_read t i = (if 0 \<le> i \<and> i < uint TAB_LEN then Inr (t i) else Inl Index_Out_Of_Bounds)"

text \<open>
  \<^verbatim>\<open>void setF0(float f0_Hz) { idx_inc = TAB_LEN * f0_Hz / fs; }\<close>
  \<^verbatim>\<open>TAB_LEN\<close> is promoted to \<^verbatim>\<open>int\<close> and converted to \<^verbatim>\<open>float\<close>; the product is
  taken first.
\<close>

definition setF0 :: "oscillator \<Rightarrow> f32 \<Rightarrow> oscillator" where
  "setF0 s f0_Hz = s\<lparr>idx_inc := fdiv (fmul (f32_of_int (uint TAB_LEN)) f0_Hz) (fs s)\<rparr>"

text \<open>
  \<^verbatim>\<open>float render() { idx += idx_inc; if (idx >= TAB_LEN) idx = idx - TAB_LEN;
  return wavetable[(int)idx]; }\<close>
  The accumulator is written before the table is read, so the new state is returned
  beside the sample or the undefined behaviour of the read.
\<close>

definition wrap :: "f32 \<Rightarrow> f32" where
  "wrap a = (if fge a (f32_of_int (uint TAB_LEN)) then fsub a (f32_of_int (uint TAB_LEN)) else a)"

definition render :: "oscillator \<Rightarrow> oscillator \<times> (ub + f32)" where
  "render s =
     (let s1 = s\<lparr>idx := fadd (idx s) (idx_inc s)\<rparr>;
          s2 = (if fge (idx s1) (f32_of_int (uint TAB_LEN))
                then s1\<lparr>idx := fsub (idx s1) (f32_of_int (uint TAB_LEN))\<rparr> else s1)
      in (s2, case int_of_f32 (idx s2) of
                Inl e \<Rightarrow> Inl e
              | Inr i \<Rightarrow> table_read (wavetable s2) i))"

text \<open>
  \<^verbatim>\<open>for (int i = 0; i < TAB_LEN; ++i) wavetable[i] = sin(M_2PI * i / TAB_LEN);\<close>
  The sine is the C library's: it is the parameter \<open>sn\<close>, from the \<^verbatim>\<open>float\<close>
  argument to the \<^verbatim>\<open>float\<close> that is stored.
\<close>

definition table_arg :: "int \<Rightarrow> f32" where
  "table_arg i = fdiv (fmul M_2PI (f32_of_int i)) (f32_of_int (uint TAB_LEN))"

function table_loop :: "(f32 \<Rightarrow> f32) \<Rightarrow> int \<Rightarrow> oscillator \<Rightarrow> oscillator" where
  "table_loop sn i s =
     (if i < uint TAB_LEN
      then table_loop sn (i + 1) (s\<lparr>wavetable := (wavetable s)(i := sn (table_arg i))\<rparr>)
      else s)"
  by pat_completeness auto
termination
  by (relation "measure (\<lambda>(sn, i, s). nat (uint TAB_LEN - i))") auto

definition table_init :: "(f32 \<Rightarrow> f32) \<Rightarrow> oscillator \<Rightarrow> oscillator" where
  "table_init sn s = table_loop sn 0 s"

text \<open>
  \<^verbatim>\<open>Oscillator(float sample_rate, float f0) : fs(sample_rate), idx(0)
  { table_init(); setF0(f0); }\<close>
  The object's storage before construction is \<open>raw\<close>: a member that the constructor
  does not write keeps the indeterminate value it has there.
\<close>

definition Oscillator :: "(f32 \<Rightarrow> f32) \<Rightarrow> oscillator \<Rightarrow> f32 \<Rightarrow> f32 \<Rightarrow> oscillator" where
  "Oscillator sn raw sample_rate f0_Hz =
     setF0 (table_init sn (raw\<lparr>idx := f32_of_int 0, fs := sample_rate\<rparr>)) f0_Hz"

text \<open>
  A client's use of an oscillator after construction: a sequence of calls. \<open>run\<close>
  gives the final state, \<open>samples\<close> what the calls of \<^verbatim>\<open>render\<close> return.
\<close>

datatype op = SetF0 f32 | Render

fun run :: "oscillator \<Rightarrow> op list \<Rightarrow> oscillator" where
  "run s [] = s"
| "run s (SetF0 f # ops) = run (setF0 s f) ops"
| "run s (Render # ops) = run (fst (render s)) ops"

fun samples :: "oscillator \<Rightarrow> op list \<Rightarrow> (ub + f32) list" where
  "samples s [] = []"
| "samples s (SetF0 f # ops) = samples (setF0 s f) ops"
| "samples s (Render # ops) = snd (render s) # samples (fst (render s)) ops"

text \<open>
  The C conditions \<^verbatim>\<open>0 <= a && a < TAB_LEN\<close> and \<^verbatim>\<open>-1 <= a && a <= 1\<close>.
\<close>

definition in_table_range :: "f32 \<Rightarrow> bool" where
  "in_table_range a = (fge a (f32_of_int 0) \<and> flt a (f32_of_int (uint TAB_LEN)))"

definition in_unit :: "f32 \<Rightarrow> bool" where
  "in_unit a = (fge a (Fin (- 1)) \<and> fge (Fin 1) a)"

text \<open>
  Concrete inputs for the examples: a storage whose members hold NaN before the
  construction, and the sine that rounds the real sine correctly.
\<close>

definition raw0 :: oscillator where
  "raw0 = \<lparr>wavetable = (\<lambda>i. NaN), idx = NaN, idx_inc = NaN, f0 = NaN, fs = NaN\<rparr>"

fun sin_rn :: "f32 \<Rightarrow> f32" where
  "sin_rn (Fin r) = fl (sin r)"
| "sin_rn NZero = NZero"
| "sin_rn a = NaN"

text \<open>
  A frequency inside \<open>(0, fs / 2)\<close> for a finite sample rate, a sequence of calls whose
  frequencies all are, and a sample that \<^verbatim>\<open>render\<close> returned and that lies in
  \<open>[-1, 1]\<close>.
\<close>

fun sub_nyquist :: "f32 \<Rightarrow> f32 \<Rightarrow> bool" where
  "sub_nyquist (Fin y) (Fin x) = (is_f32 (Fin x) \<and> 0 < x \<and> x < y / 2)"
| "sub_nyquist rate f = False"

fun valid_ops :: "f32 \<Rightarrow> op list \<Rightarrow> bool" where
  "valid_ops rate [] = True"
| "valid_ops rate (SetF0 f # ops) = (sub_nyquist rate f \<and> valid_ops rate ops)"
| "valid_ops rate (Render # ops) = valid_ops rate ops"

fun sample_in_unit :: "ub + f32 \<Rightarrow> bool" where
  "sample_in_unit (Inr v) = in_unit v"
| "sample_in_unit (Inl e) = False"

text \<open>A finite value: neither an infinity nor a NaN.\<close>

fun is_finite :: "f32 \<Rightarrow> bool" where
  "is_finite (Fin r) = True"
| "is_finite NZero = True"
| "is_finite a = False"

section \<open>Properties of binary32 rounding\<close>

lemma p2_less_iff: "(2::real) powi m < 2 powi n \<longleftrightarrow> m < n"
  by (metis power_int_strict_increasing power_int_increasing not_less one_less_numeral_iff
      semiring_norm(76) one_le_numeral)

lemma p2_le_iff: "(2::real) powi m \<le> 2 powi n \<longleftrightarrow> m \<le> n"
  by (metis p2_less_iff not_less)

lemma p2_pos: "0 < (2::real) powi n"
  by (simp add: zero_less_power_int)

lemma p2_add: "(2::real) powi (m + n) = 2 powi m * 2 powi n"
  by (simp add: power_int_add)

lemma p2_diff: "(2::real) powi (m - n) = 2 powi m / 2 powi n"
  by (simp add: power_int_diff)

lemma scan_exp_ge: "- 126 \<le> scan_exp n a"
  by (induction n) auto

lemma scan_exp_le: "scan_exp n a \<le> int n - 126"
  by (induction n) auto

lemma scan_exp_lower: "scan_exp n a \<noteq> - 126 \<Longrightarrow> 2 powi (scan_exp n a) \<le> a"
  by (induction n) (auto split: if_splits)

lemma scan_exp_upper: "a < 2 powi (int n - 125) \<Longrightarrow> a < 2 powi (scan_exp n a + 1)"
proof (induction n)
  case 0
  then show ?case by simp
next
  case (Suc n)
  show ?case
  proof (cases "2 powi (int n - 125) \<le> a")
    case True
    have "int (Suc n) - 125 = int n - 125 + 1" by simp
    with Suc.prems True show ?thesis by simp
  next
    case False
    then show ?thesis using Suc.IH by simp
  qed
qed

lemma expo_ge: "- 126 \<le> expo x"
  by (simp add: expo_def scan_exp_ge)

lemma expo_le: "expo x \<le> 127"
  using scan_exp_le [of 253 "\<bar>x\<bar>"] by (simp add: expo_def)

lemma expo_lower: "expo x \<noteq> - 126 \<Longrightarrow> 2 powi (expo x) \<le> \<bar>x\<bar>"
  by (simp add: expo_def scan_exp_lower)

lemma expo_upper: "\<bar>x\<bar> < 2 powi 128 \<Longrightarrow> \<bar>x\<bar> < 2 powi (expo x + 1)"
  using scan_exp_upper [of "\<bar>x\<bar>" 253] by (simp add: expo_def)

lemma expo_eqI:
  assumes "2 powi e \<le> \<bar>x\<bar>" and "\<bar>x\<bar> < 2 powi (e + 1)" and "- 126 \<le> e" and "e \<le> 127"
  shows "expo x = e"
proof -
  have "e + 1 \<le> 128" using assms(4) by simp
  then have "(2::real) powi (e + 1) \<le> 2 powi 128"
    by (simp only: p2_le_iff)
  with assms(2) have lt: "\<bar>x\<bar> < 2 powi 128" by simp
  have up: "\<bar>x\<bar> < 2 powi (expo x + 1)"
    by (rule expo_upper [OF lt])
  with assms(1) have "(2::real) powi e < 2 powi (expo x + 1)" by simp
  then have le1: "e \<le> expo x" by (simp add: p2_less_iff)
  show ?thesis
  proof (cases "expo x = - 126")
    case True
    with le1 assms(3) show ?thesis by simp
  next
    case False
    then have "2 powi (expo x) \<le> \<bar>x\<bar>" by (rule expo_lower)
    with assms(2) have "(2::real) powi (expo x) < 2 powi (e + 1)" by simp
    then have "expo x \<le> e" by (simp add: p2_less_iff)
    with le1 show ?thesis by simp
  qed
qed

lemma expo_subnormal: "\<bar>x\<bar> < 2 powi (- 126) \<Longrightarrow> expo x = - 126"
proof (rule ccontr)
  assume a: "\<bar>x\<bar> < 2 powi (- 126)" and n: "expo x \<noteq> - 126"
  from n have "2 powi (expo x) \<le> \<bar>x\<bar>" by (rule expo_lower)
  with a have "(2::real) powi (expo x) < 2 powi (- 126)" by simp
  then have "expo x < - 126" by (simp only: p2_less_iff)
  with expo_ge [of x] show False by simp
qed

lemma expo_minus: "expo (- x) = expo x"
  by (simp add: expo_def)

lemma scan_exp_mono: "a \<le> b \<Longrightarrow> scan_exp n a \<le> scan_exp n b"
proof (induction n)
  case 0
  then show ?case by simp
next
  case (Suc n)
  have "scan_exp n a \<le> int n - 125"
    using scan_exp_le [of n a] by simp
  with Suc show ?case by auto
qed

lemma expo_mono: "\<bar>x\<bar> \<le> \<bar>y\<bar> \<Longrightarrow> expo x \<le> expo y"
  by (simp add: expo_def scan_exp_mono)

lemma ulp_pos: "0 < ulp x"
  by (simp add: ulp_def p2_pos)

lemma ulp_minus: "ulp (- x) = ulp x"
  by (simp add: ulp_def expo_minus)

subsection \<open>Rounding to the nearest integer\<close>

lemma rne_of_int: "rne (of_int n) = n"
  by (simp add: rne_def)

lemma rne_cases:
  "rne y = \<lfloor>y\<rfloor> \<and> y - of_int \<lfloor>y\<rfloor> \<le> 1/2 \<or> rne y = \<lfloor>y\<rfloor> + 1 \<and> 1/2 \<le> y - of_int \<lfloor>y\<rfloor>"
  by (auto simp: rne_def Let_def)

lemma rne_err: "\<bar>of_int (rne y) - y\<bar> \<le> 1/2"
  using rne_cases [of y] by (auto; linarith)

lemma rne_mono: 
  assumes "x \<le> y" shows "rne x \<le> rne y"
proof (cases "\<lfloor>x\<rfloor> = \<lfloor>y\<rfloor>")
  case True
  with assms show ?thesis
    by (auto simp: rne_def Let_def)
next
  case False
  with assms have "\<lfloor>x\<rfloor> < \<lfloor>y\<rfloor>"
    by (simp add: floor_mono order.not_eq_order_implies_strict)
  then have "\<lfloor>x\<rfloor> + 1 \<le> \<lfloor>y\<rfloor>" by simp
  moreover have "rne x \<le> \<lfloor>x\<rfloor> + 1" using rne_cases [of x] by auto
  moreover have "\<lfloor>y\<rfloor> \<le> rne y" using rne_cases [of y] by auto
  ultimately show ?thesis by linarith
qed

lemma rne_minus: "rne (- y) = - rne y"
proof (cases "y \<in> \<int>")
  case True
  then obtain n where "y = of_int n" by (auto elim: Ints_cases)
  then have "rne (- y) = rne (of_int (- n))" by simp
  also have "\<dots> = - n" by (simp only: rne_of_int)
  finally show ?thesis using \<open>y = of_int n\<close> by (simp add: rne_of_int)
next
  case False
  then have "y \<noteq> of_int \<lfloor>y\<rfloor>" by (metis Ints_of_int)
  then have f: "\<lfloor>- y\<rfloor> = - \<lfloor>y\<rfloor> - 1"
    by (simp add: floor_minus ceiling_altdef)
  have fr: "of_int \<lfloor>y\<rfloor> \<le> y" "y < of_int \<lfloor>y\<rfloor> + 1" by linarith+
  show ?thesis
    unfolding rne_def Let_def f using fr by (auto; linarith?)
qed

lemma scan_exp_numeral:
  "scan_exp (numeral k) a =
     (if 2 powi (int (pred_numeral k) - 125) \<le> a then int (pred_numeral k) - 125
      else scan_exp (pred_numeral k) a)"
  by (simp add: numeral_eq_Suc)

lemma expo_big: "2 powi 127 \<le> \<bar>x\<bar> \<Longrightarrow> expo x = 127"
  unfolding expo_def by (subst scan_exp_numeral) simp

lemma expo_upper': "expo x < 127 \<Longrightarrow> \<bar>x\<bar> < 2 powi (expo x + 1)"
proof -
  assume a: "expo x < 127"
  have "\<bar>x\<bar> < 2 powi 127"
  proof (rule ccontr)
    assume "\<not> \<bar>x\<bar> < 2 powi 127"
    then have "expo x = 127" by (simp add: expo_big)
    with a show False by simp
  qed
  also have "(2::real) powi 127 \<le> 2 powi 128" by (simp only: p2_le_iff)
  finally show ?thesis by (rule expo_upper)
qed

lemma rne_zero: "rne 0 = 0"
  using rne_of_int [of 0] by simp

lemma rnd_zero: "rnd 0 = 0"
  by (simp add: rnd_def rne_zero)

lemma rnd_minus: "rnd (- x) = - rnd x"
  by (simp add: rnd_def ulp_minus rne_minus)

lemma rnd_nonneg: "0 \<le> x \<Longrightarrow> 0 \<le> rnd x"
proof -
  assume "0 \<le> x"
  then have "0 \<le> x / ulp x" using ulp_pos [of x] by simp
  then have "rne 0 \<le> rne (x / ulp x)" by (rule rne_mono)
  then have "0 \<le> rne (x / ulp x)" by (simp add: rne_zero)
  then show ?thesis using ulp_pos [of x] by (simp add: rnd_def)
qed

lemma rnd_nonpos: "x \<le> 0 \<Longrightarrow> rnd x \<le> 0"
  using rnd_nonneg [of "- x"] by (simp add: rnd_minus)

lemma ulp_binade: "2 powi (expo x) = 2 ^ 23 * ulp x" "2 powi (expo x + 1) = 2 ^ 24 * ulp x"
proof -
  have "expo x = 23 + (expo x - 23)" "expo x + 1 = 24 + (expo x - 23)" by simp_all
  then have "(2::real) powi (expo x) = 2 powi 23 * 2 powi (expo x - 23)"
    "(2::real) powi (expo x + 1) = 2 powi 24 * 2 powi (expo x - 23)"
    by (metis p2_add)+
  then show "2 powi (expo x) = 2 ^ 23 * ulp x" "2 powi (expo x + 1) = 2 ^ 24 * ulp x"
    by (simp_all add: ulp_def)
qed

text \<open>A non-negative value below the top of its binade rounds to at most that top.\<close>

lemma rnd_le_top:
  assumes "0 \<le> x" and "x \<le> 2 powi (expo x + 1)"
  shows "rnd x \<le> 2 powi (expo x + 1)"
proof -
  have "x \<le> 2 ^ 24 * ulp x"
    using assms(2) by (simp only: ulp_binade(2))
  then have "x / ulp x \<le> of_int (2 ^ 24)"
    using ulp_pos [of x] by (simp add: pos_divide_le_eq)
  then have "rne (x / ulp x) \<le> rne (of_int (2 ^ 24))" by (rule rne_mono)
  then have "rne (x / ulp x) \<le> 2 ^ 24" by (simp only: rne_of_int)
  then have "real_of_int (rne (x / ulp x)) \<le> 2 ^ 24"
    using of_int_le_iff [of "rne (x / ulp x)" "2 ^ 24", where 'a = real] by simp
  then have "real_of_int (rne (x / ulp x)) * ulp x \<le> 2 ^ 24 * ulp x"
    using ulp_pos [of x] by (simp only: mult_le_cancel_right_pos)
  then show ?thesis
    by (simp only: rnd_def ulp_binade(2))
qed

lemma rnd_ge_bottom:
  assumes "2 powi (expo x) \<le> x"
  shows "2 powi (expo x) \<le> rnd x"
proof -
  have "2 ^ 23 * ulp x \<le> x"
    using assms by (simp only: ulp_binade(1))
  then have "of_int (2 ^ 23) \<le> x / ulp x"
    using ulp_pos [of x] by (simp add: pos_le_divide_eq)
  then have "rne (of_int (2 ^ 23)) \<le> rne (x / ulp x)" by (rule rne_mono)
  then have "2 ^ 23 \<le> rne (x / ulp x)" by (simp only: rne_of_int)
  then have "2 ^ 23 \<le> real_of_int (rne (x / ulp x))"
    using of_int_le_iff [of "2 ^ 23" "rne (x / ulp x)", where 'a = real] by simp
  then have "2 ^ 23 * ulp x \<le> real_of_int (rne (x / ulp x)) * ulp x"
    using ulp_pos [of x] by (simp only: mult_le_cancel_right_pos)
  then show ?thesis
    by (simp only: rnd_def ulp_binade(1))
qed

lemma rnd_mono_nonneg:
  assumes "0 \<le> x" and "x \<le> y"
  shows "rnd x \<le> rnd y"
proof (cases "expo x = expo y")
  case True
  then have u: "ulp x = ulp y" by (simp add: ulp_def)
  have "x / ulp y \<le> y / ulp y"
    using assms(2) ulp_pos [of y] by (simp add: divide_right_mono)
  then have "rne (x / ulp y) \<le> rne (y / ulp y)" by (rule rne_mono)
  then show ?thesis
    using ulp_pos [of y] by (simp add: rnd_def u)
next
  case False
  have "expo x \<le> expo y" using assms by (intro expo_mono) simp
  with False have lt: "expo x < expo y" by simp
  with expo_le [of y] have "expo x < 127" by simp
  then have "\<bar>x\<bar> < 2 powi (expo x + 1)" by (rule expo_upper')
  with assms(1) have "x \<le> 2 powi (expo x + 1)" by simp
  with assms(1) have a: "rnd x \<le> 2 powi (expo x + 1)" by (rule rnd_le_top)
  from lt have "expo x + 1 \<le> expo y" by simp
  then have b: "(2::real) powi (expo x + 1) \<le> 2 powi (expo y)" by (simp only: p2_le_iff)
  from lt expo_ge [of x] have "expo y \<noteq> - 126" by simp
  then have "2 powi (expo y) \<le> \<bar>y\<bar>" by (rule expo_lower)
  with assms have "2 powi (expo y) \<le> y" by simp
  then have "2 powi (expo y) \<le> rnd y" by (rule rnd_ge_bottom)
  with a b show ?thesis by linarith
qed

lemma rnd_mono: "x \<le> y \<Longrightarrow> rnd x \<le> rnd y"
proof -
  assume xy: "x \<le> y"
  consider "0 \<le> x" | "x < 0" "0 \<le> y" | "y < 0" by linarith
  then show ?thesis
  proof cases
    case 1
    with xy show ?thesis by (simp add: rnd_mono_nonneg)
  next
    case 2
    then have "rnd x \<le> 0" "0 \<le> rnd y" by (simp_all add: rnd_nonpos rnd_nonneg)
    then show ?thesis by simp
  next
    case 3
    with xy have "rnd (- y) \<le> rnd (- x)" by (intro rnd_mono_nonneg) simp_all
    then show ?thesis by (simp add: rnd_minus)
  qed
qed

lemma rne_ge_int: "of_int n \<le> y \<Longrightarrow> n \<le> rne y"
  using rne_mono [of "of_int n" y] by (simp only: rne_of_int)

lemma rne_le_int: "y \<le> of_int n \<Longrightarrow> rne y \<le> n"
  using rne_mono [of y "of_int n"] by (simp only: rne_of_int)

lemma rnd_ge_grid:
  assumes "of_int n * ulp x \<le> x"
  shows "of_int n * ulp x \<le> rnd x"
proof -
  have "of_int n \<le> x / ulp x"
    using assms ulp_pos [of x] by (simp add: pos_le_divide_eq)
  then have "n \<le> rne (x / ulp x)" by (rule rne_ge_int)
  then have "real_of_int n \<le> real_of_int (rne (x / ulp x))" by simp
  then show ?thesis
    unfolding rnd_def using ulp_pos [of x] by (simp only: mult_le_cancel_right_pos)
qed

lemma rnd_le_grid:
  assumes "x \<le> of_int n * ulp x"
  shows "rnd x \<le> of_int n * ulp x"
proof -
  have "x / ulp x \<le> of_int n"
    using assms ulp_pos [of x] by (simp add: pos_divide_le_eq)
  then have "rne (x / ulp x) \<le> n" by (rule rne_le_int)
  then have "real_of_int (rne (x / ulp x)) \<le> real_of_int n" by simp
  then show ?thesis
    unfolding rnd_def using ulp_pos [of x] by (simp only: mult_le_cancel_right_pos)
qed

lemma rnd_exact_grid: "x = of_int n * ulp x \<Longrightarrow> rnd x = x"
  using rnd_ge_grid [where n = n and x = x] rnd_le_grid [where n = n and x = x] by simp

lemma rnd_repr:
  assumes m: "\<bar>m\<bar> \<le> 2 ^ 24" and k: "- 149 \<le> k"
    and b: "\<bar>real_of_int m * 2 powi k\<bar> < 2 powi 128"
  shows "rnd (of_int m * 2 powi k) = of_int m * 2 powi k"
proof -
  define x :: real where "x = of_int m * 2 powi k"
  have absx: "\<bar>x\<bar> = of_int \<bar>m\<bar> * 2 powi k"
    by (simp add: x_def abs_mult p2_pos less_imp_le)
  show ?thesis
  proof (cases "expo x - 23 \<le> k")
    case True
    define j where "j = nat (k - (expo x - 23))"
    have "k = int j + (expo x - 23)" using True by (simp add: j_def)
    then have "(2::real) powi k = 2 powi (int j) * 2 powi (expo x - 23)"
      by (metis p2_add)
    then have "(2::real) powi k = 2 ^ j * ulp x"
      by (simp add: ulp_def)
    then have "x = of_int (m * 2 ^ j) * ulp x"
      by (simp add: x_def)
    then have "rnd x = x" by (rule rnd_exact_grid)
    then show ?thesis by (simp only: x_def)
  next
    case False
    then have lt: "k + 23 < expo x" by simp
    with k have "expo x \<noteq> - 126" by simp
    then have lo: "2 powi (expo x) \<le> \<bar>x\<bar>" by (rule expo_lower)
    have "real_of_int \<bar>m\<bar> \<le> 2 ^ 24"
      using m of_int_le_iff [of "\<bar>m\<bar>" "2 ^ 24", where 'a = real] by simp
    then have "\<bar>x\<bar> \<le> 2 ^ 24 * 2 powi k"
      unfolding absx using p2_pos [of k] by (simp only: mult_le_cancel_right_pos)
    also have "\<dots> = 2 powi (24 + k)"
      by (simp add: p2_add)
    finally have hi: "\<bar>x\<bar> \<le> 2 powi (24 + k)" .
    with lo have "(2::real) powi (expo x) \<le> 2 powi (24 + k)" by simp
    then have "expo x \<le> 24 + k" by (simp only: p2_le_iff)
    with lt have e: "expo x = k + 24" by simp
    then have u: "ulp x = 2 * 2 powi k"
      using p2_add [of 1 k] by (simp add: ulp_def)
    have "2 powi (24 + k) \<le> \<bar>x\<bar>" using lo e by (simp add: add.commute)
    then have "2 ^ 24 * 2 powi k \<le> real_of_int \<bar>m\<bar> * 2 powi k"
      unfolding absx by (simp add: p2_add)
    then have "2 ^ 24 \<le> real_of_int \<bar>m\<bar>"
      using p2_pos [of k] by (simp only: mult_le_cancel_right_pos)
    then have "2 ^ 24 \<le> \<bar>m\<bar>"
      using of_int_le_iff [of "2 ^ 24" "\<bar>m\<bar>", where 'a = real] by simp
    with m have "\<bar>m\<bar> = 2 ^ 24" by simp
    then have "\<bar>m\<bar> = 16777216" by simp
    then have "m = 2 * (m div 2)" by arith
    then have "real_of_int m = 2 * real_of_int (m div 2)"
      by (metis of_int_mult of_int_numeral)
    then have "x = of_int (m div 2) * (2 * 2 powi k)"
      unfolding x_def by simp
    then have "x = of_int (m div 2) * ulp x"
      using u by metis
    then have "rnd x = x" by (rule rnd_exact_grid)
    then show ?thesis by (simp only: x_def)
  qed
qed

lemma rnd_big:
  assumes "2 powi 128 \<le> x"
  shows "2 powi 128 \<le> rnd x"
proof -
  have "(2::real) powi 127 \<le> 2 powi 128" by (simp only: p2_le_iff)
  with assms have "2 powi 127 \<le> \<bar>x\<bar>" by simp
  then have e: "expo x = 127" by (rule expo_big)
  have "2 powi (expo x + 1) = 2 ^ 24 * ulp x" by (rule ulp_binade(2))
  then have t: "2 powi 128 = of_int (2 ^ 24) * ulp x" by (simp add: e)
  with assms have "of_int (2 ^ 24) * ulp x \<le> x" by simp
  then have "of_int (2 ^ 24) * ulp x \<le> rnd x" by (rule rnd_ge_grid)
  with t show ?thesis by simp
qed

lemma rnd_bounded_arg:
  assumes "\<bar>rnd x\<bar> < 2 powi 128"
  shows "\<bar>x\<bar> < 2 powi 128"
proof (rule ccontr)
  assume "\<not> \<bar>x\<bar> < 2 powi 128"
  then consider "2 powi 128 \<le> x" | "2 powi 128 \<le> - x" by linarith
  then show False
  proof cases
    case 1
    then have "2 powi 128 \<le> rnd x" by (rule rnd_big)
    with assms show False by simp
  next
    case 2
    then have "2 powi 128 \<le> rnd (- x)" by (rule rnd_big)
    with assms show False by (simp add: rnd_minus)
  qed
qed

lemma rnd_mantissa:
  assumes "\<bar>x\<bar> < 2 powi 128"
  shows "\<bar>rne (x / ulp x)\<bar> \<le> 2 ^ 24"
proof -
  have "\<bar>x\<bar> < 2 powi (expo x + 1)" using assms by (rule expo_upper)
  then have "\<bar>x\<bar> < 2 ^ 24 * ulp x" by (simp only: ulp_binade(2))
  then have "x < 2 ^ 24 * ulp x" "- (2 ^ 24) * ulp x < x"
    by simp_all
  then have "x / ulp x < 2 ^ 24" "- (2 ^ 24) < x / ulp x"
    using ulp_pos [of x] by (simp_all only: pos_divide_less_eq pos_less_divide_eq)
  then have "x / ulp x \<le> of_int (2 ^ 24)" "of_int (- (2 ^ 24)) \<le> x / ulp x"
    by simp_all
  then have "rne (x / ulp x) \<le> 2 ^ 24" "- (2 ^ 24) \<le> rne (x / ulp x)"
    by (simp_all only: rne_le_int rne_ge_int)
  then show ?thesis by simp
qed

lemma rnd_idem:
  assumes "\<bar>rnd x\<bar> < 2 powi 128"
  shows "rnd (rnd x) = rnd x"
proof -
  define m where "m = rne (x / ulp x)"
  define k where "k = expo x - 23"
  have r: "rnd x = of_int m * 2 powi k"
    by (simp only: rnd_def ulp_def m_def k_def)
  have "\<bar>x\<bar> < 2 powi 128" using assms by (rule rnd_bounded_arg)
  then have m: "\<bar>m\<bar> \<le> 2 ^ 24" unfolding m_def by (rule rnd_mantissa)
  have k: "- 149 \<le> k" using expo_ge [of x] by (simp add: k_def)
  have b: "\<bar>real_of_int m * 2 powi k\<bar> < 2 powi 128" using assms by (simp only: r)
  have "rnd (of_int m * 2 powi k) = of_int m * 2 powi k"
    using m k b by (rule rnd_repr)
  then show ?thesis by (simp only: r)
qed

lemma fl_exact: "rnd x = x \<Longrightarrow> \<bar>x\<bar> < 2 powi 128 \<Longrightarrow> fl x = Fin x"
  unfolding fl_def Let_def by auto

lemma fl_repr:
  assumes "\<bar>m\<bar> \<le> 2 ^ 24" and "- 149 \<le> k" and "\<bar>real_of_int m * 2 powi k\<bar> < 2 powi 128"
  shows "fl (of_int m * 2 powi k) = Fin (of_int m * 2 powi k)"
  using rnd_repr [OF assms] assms(3) by (rule fl_exact)

lemma fl_Fin_iff: "fl r = Fin r \<longleftrightarrow> rnd r = r \<and> \<bar>r\<bar> < 2 powi 128"
  unfolding fl_def Let_def by auto

lemma is_f32_Fin: "is_f32 (Fin r) \<longleftrightarrow> rnd r = r \<and> \<bar>r\<bar> < 2 powi 128"
  by (simp only: is_f32_def f32.case fl_Fin_iff)

lemma fl_cases:
  "fl x = PInf \<or> fl x = NInf \<or> fl x = NZero \<or> (fl x = Fin (rnd x) \<and> \<bar>rnd x\<bar> < 2 powi 128)"
  unfolding fl_def Let_def by auto

lemma is_f32_fl: "is_f32 (fl x)"
proof -
  consider "fl x = PInf" | "fl x = NInf" | "fl x = NZero"
    | "fl x = Fin (rnd x)" "\<bar>rnd x\<bar> < 2 powi 128"
    using fl_cases [of x] by blast
  then show ?thesis
  proof cases
    case 4
    then have "rnd (rnd x) = rnd x" using rnd_idem by blast
    with 4 show ?thesis by (simp only: is_f32_Fin)
  qed (simp_all add: is_f32_def)
qed

lemma fl_zero: "fl 0 = Fin 0"
  by (rule fl_exact) (simp_all add: rnd_zero p2_pos)

text \<open>Rounding stays between representable bounds.\<close>

lemma fl_between:
  assumes "0 \<le> x" and "x \<le> b" and "rnd b = b" and "b < 2 powi 128"
  shows "\<exists>r. fl x = Fin r \<and> 0 \<le> r \<and> r \<le> b \<and> is_f32 (Fin r)"
proof -
  have lo: "0 \<le> rnd x" using assms(1) by (rule rnd_nonneg)
  have "rnd x \<le> rnd b" using assms(2) by (rule rnd_mono)
  then have hi: "rnd x \<le> b" by (simp only: assms(3))
  with lo assms(4) have bd: "\<bar>rnd x\<bar> < 2 powi 128" by simp
  then have "fl x = Fin (rnd x)"
    using assms(1) unfolding fl_def Let_def by auto
  moreover have "is_f32 (Fin (rnd x))"
    using bd rnd_idem [OF bd] by (simp only: is_f32_Fin)
  ultimately show ?thesis using lo hi by blast
qed

text \<open>A binary32 value in the binade of \<open>2^e\<close> is a multiple of \<open>2^(e - 23)\<close>.\<close>

lemma f32_grid:
  assumes "rnd x = x" and "2 powi e \<le> \<bar>x\<bar>" and "\<bar>x\<bar> < 2 powi (e + 1)"
    and "- 126 \<le> e" and "e \<le> 127"
  shows "\<exists>n. x = of_int n * 2 powi (e - 23)"
proof -
  have "expo x = e" using assms(2-5) by (rule expo_eqI)
  then have "rnd x = of_int (rne (x / ulp x)) * 2 powi (e - 23)"
    by (simp add: rnd_def ulp_def)
  with assms(1) show ?thesis by metis
qed

lemma f32_of_int_small: "\<bar>i\<bar> \<le> 2 ^ 24 \<Longrightarrow> f32_of_int i = Fin (of_int i)"
proof -
  assume a: "\<bar>i\<bar> \<le> 2 ^ 24"
  then have "\<bar>real_of_int i\<bar> \<le> 2 ^ 24"
    using of_int_le_iff [of "\<bar>i\<bar>" "2 ^ 24", where 'a = real] by simp
  then have "\<bar>real_of_int i * 2 powi 0\<bar> < 2 powi 128" by simp
  with a have "fl (of_int i * 2 powi 0) = Fin (of_int i * 2 powi 0)"
    by (intro fl_repr) simp_all
  then show ?thesis by (simp add: f32_of_int_def)
qed

lemma f32_TAB_LEN: "f32_of_int (uint TAB_LEN) = Fin 2048"
  using f32_of_int_small [of 2048] by (simp add: TAB_LEN_def)

lemma f32_zero: "f32_of_int 0 = Fin 0"
  using f32_of_int_small [of 0] by simp

lemma is_f32_special: "is_f32 NZero" "is_f32 PInf" "is_f32 NInf" "is_f32 NaN" "is_f32 (Fin 0)"
  by (simp_all add: is_f32_def fl_zero)

lemma is_f32_fzero: "is_f32 (fzero b)"
  by (simp add: fzero_def is_f32_special)

lemma is_f32_finf: "is_f32 (finf b)"
  by (simp add: finf_def is_f32_special)

lemma is_f32_fadd: "is_f32 (fadd a b)"
  by (auto simp: fadd_def is_inf_def is_f32_fl is_f32_fzero is_f32_special)

lemma is_f32_fsub: "is_f32 (fsub a b)"
  by (simp add: fsub_def is_f32_fadd)

lemma is_f32_fmul: "is_f32 (fmul a b)"
  by (simp add: fmul_def is_f32_finf is_f32_fl is_f32_fzero is_f32_special)

lemma is_f32_fdiv: "is_f32 (fdiv a b)"
  by (simp add: fdiv_def is_f32_finf is_f32_fl is_f32_fzero is_f32_special)

section \<open>Frame properties of the operations\<close>

lemma render_state: "fst (render s) = s\<lparr>idx := wrap (fadd (idx s) (idx_inc s))\<rparr>"
  by (simp add: render_def wrap_def Let_def)

lemma render_sample:
  "snd (render s) =
     (case int_of_f32 (wrap (fadd (idx s) (idx_inc s))) of
        Inl e \<Rightarrow> Inl e
      | Inr i \<Rightarrow> table_read (wavetable s) i)"
  by (simp add: render_def wrap_def Let_def split: sum.splits)

declare table_loop.simps [simp del]

lemma table_loop_frame:
  "idx (table_loop sn i s) = idx s \<and> idx_inc (table_loop sn i s) = idx_inc s \<and>
   f0 (table_loop sn i s) = f0 s \<and> fs (table_loop sn i s) = fs s"
proof (induction sn i s rule: table_loop.induct)
  case (1 sn i s)
  show ?case
  proof (cases "i < uint TAB_LEN")
    case True
    with 1 show ?thesis by (simp add: table_loop.simps [of sn i s])
  next
    case False
    then show ?thesis by (simp add: table_loop.simps [of sn i s])
  qed
qed

lemma table_loop_wavetable:
  "wavetable (table_loop sn i s) j =
     (if i \<le> j \<and> j < uint TAB_LEN then sn (table_arg j) else wavetable s j)"
proof (induction sn i s rule: table_loop.induct)
  case (1 sn i s)
  show ?case
  proof (cases "i < uint TAB_LEN")
    case True
    with 1 show ?thesis by (simp add: table_loop.simps [of sn i s])
  next
    case False
    then show ?thesis by (auto simp: table_loop.simps [of sn i s])
  qed
qed

lemma table_init_wavetable:
  "wavetable (table_init sn s) j =
     (if 0 \<le> j \<and> j < uint TAB_LEN then sn (table_arg j) else wavetable s j)"
  by (simp add: table_init_def table_loop_wavetable)

lemma table_init_frame:
  "idx (table_init sn s) = idx s" "idx_inc (table_init sn s) = idx_inc s"
  "f0 (table_init sn s) = f0 s" "fs (table_init sn s) = fs s"
  by (simp_all add: table_init_def table_loop_frame)

lemma setF0_frame:
  "idx (setF0 s f) = idx s" "wavetable (setF0 s f) = wavetable s"
  "f0 (setF0 s f) = f0 s" "fs (setF0 s f) = fs s"
  by (simp_all add: setF0_def)

lemma render_frame:
  "wavetable (fst (render s)) = wavetable s" "idx_inc (fst (render s)) = idx_inc s"
  "f0 (fst (render s)) = f0 s" "fs (fst (render s)) = fs s"
  by (simp_all add: render_state)

lemma Oscillator_fields:
  "idx (Oscillator sn raw rate f) = Fin 0"
  "fs (Oscillator sn raw rate f) = rate"
  "f0 (Oscillator sn raw rate f) = f0 raw"
  "idx_inc (Oscillator sn raw rate f) = fdiv (fmul (Fin 2048) f) rate"
  by (simp_all add: Oscillator_def setF0_def table_init_frame f32_zero f32_TAB_LEN)

lemma Oscillator_wavetable:
  "wavetable (Oscillator sn raw rate f) j =
     (if 0 \<le> j \<and> j < 2048 then sn (table_arg j) else wavetable raw j)"
  by (simp add: Oscillator_def setF0_frame table_init_wavetable TAB_LEN_def)

lemma run_frame:
  "f0 (run s ops) = f0 s \<and> fs (run s ops) = fs s \<and> wavetable (run s ops) = wavetable s"
proof (induction ops arbitrary: s)
  case Nil
  then show ?case by simp
next
  case (Cons a ops)
  then show ?case by (cases a) (simp_all add: setF0_frame render_frame)
qed

section \<open>The accumulator stays in the table\<close>

lemma in_table_range_cases:
  assumes "is_f32 a" and "in_table_range a"
  shows "a = NZero \<or> (\<exists>x. a = Fin x \<and> 0 \<le> x \<and> x < 2048 \<and> rnd x = x)"
  using assms
  by (cases a) (auto simp: in_table_range_def fge_def flt_def f32_zero f32_TAB_LEN is_f32_Fin)

lemma in_table_range_Fin: "in_table_range (Fin x) \<longleftrightarrow> 0 \<le> x \<and> x < 2048"
  by (auto simp: in_table_range_def fge_def flt_def f32_zero f32_TAB_LEN)

lemma in_table_range_NZero: "in_table_range NZero"
  by (simp add: in_table_range_def fge_def flt_def f32_zero f32_TAB_LEN)

lemma rnd_2048: "rnd 2048 = 2048"
  using rnd_repr [of 2048 0] by simp

lemma rnd_top: "rnd (4096 - 2 powi (- 12)) = 4096 - 2 powi (- 12)"
proof -
  have e: "(4096::real) - 2 powi (- 12) = of_int (2 ^ 24 - 1) * 2 powi (- 12)"
    by (simp add: power_int_minus)
  have "rnd (of_int (2 ^ 24 - 1) * 2 powi (- 12)) = of_int (2 ^ 24 - 1) * 2 powi (- 12)"
    by (rule rnd_repr) (simp_all add: power_int_minus)
  then show ?thesis by (simp only: e)
qed

text \<open>Below 2048 the largest binary32 value is \<open>2048 - 2^-13\<close>.\<close>

lemma f32_below_2048:
  assumes "rnd x = x" and "0 \<le> x" and "x < 2048"
  shows "x \<le> 2048 - 2 powi (- 13)"
proof (cases "x < 1024")
  case True
  then show ?thesis by (simp add: power_int_minus)
next
  case False
  then have "2 powi 10 \<le> \<bar>x\<bar>" "\<bar>x\<bar> < 2 powi (10 + 1)"
    using assms by simp_all
  with assms(1) have "\<exists>n. x = of_int n * 2 powi (10 - 23)"
    by (intro f32_grid) simp_all
  then obtain n where n: "x = of_int n * 2 powi (- 13)" by auto
  with assms(3) have "real_of_int n < 2 ^ 24"
    by (simp add: power_int_minus field_simps)
  then have "n < 2 ^ 24"
    using of_int_less_iff [of n "2 ^ 24", where 'a = real] by simp
  then have "n \<le> 2 ^ 24 - 1" by simp
  then have "real_of_int n \<le> 2 ^ 24 - 1"
    using of_int_le_iff [of n "2 ^ 24 - 1", where 'a = real] by simp
  then show ?thesis
    unfolding n by (simp add: power_int_minus field_simps)
qed

text \<open>In \<open>[2048, 4096)\<close> subtracting 2048 from a binary32 value is exact.\<close>

lemma sub_2048_exact:
  assumes "rnd r = r" and "2048 \<le> r" and "r < 4096"
  shows "rnd (r - 2048) = r - 2048"
proof -
  have "2 powi 11 \<le> \<bar>r\<bar>" "\<bar>r\<bar> < 2 powi (11 + 1)"
    using assms by simp_all
  with assms(1) have "\<exists>n. r = of_int n * 2 powi (11 - 23)"
    by (intro f32_grid) simp_all
  then obtain n where n: "r = of_int n * 2 powi (- 12)" by auto
  from assms(2,3) have "2 ^ 23 \<le> real_of_int n" "real_of_int n < 2 ^ 24"
    unfolding n by (simp_all add: power_int_minus field_simps)
  then have "2 ^ 23 \<le> n" "n < 2 ^ 24"
    using of_int_le_iff [of "2 ^ 23" n, where 'a = real]
      of_int_less_iff [of n "2 ^ 24", where 'a = real] by simp_all
  then have m: "\<bar>n - 2 ^ 23\<bar> \<le> 2 ^ 24" by simp
  have e: "r - 2048 = of_int (n - 2 ^ 23) * 2 powi (- 12)"
    unfolding n by (simp add: power_int_minus field_simps)
  have "\<bar>r - 2048\<bar> < 2 powi 128" using assms(2,3) by simp
  then have "\<bar>real_of_int (n - 2 ^ 23) * 2 powi (- 12)\<bar> < 2 powi 128"
    by (simp only: e)
  with m have "rnd (of_int (n - 2 ^ 23) * 2 powi (- 12)) = of_int (n - 2 ^ 23) * 2 powi (- 12)"
    by (intro rnd_repr) simp_all
  then show ?thesis by (simp only: e)
qed

lemma in_table_range_rv:
  assumes "is_f32 a" and "in_table_range a"
  shows "a \<noteq> NaN \<and> \<not> is_inf a \<and> 0 \<le> rv a \<and> rv a \<le> 2048 - 2 powi (- 13) \<and>
         rnd (rv a) = rv a \<and> (a = NZero \<or> a = Fin (rv a))"
proof -
  from in_table_range_cases [OF assms]
  consider "a = NZero" | x where "a = Fin x" "0 \<le> x" "x < 2048" "rnd x = x" by blast
  then show ?thesis
  proof cases
    case 1
    then show ?thesis by (simp add: is_inf_def rnd_zero power_int_minus)
  next
    case 2
    from 2(4,2,3) have "x \<le> 2048 - 2 powi (- 13)" by (rule f32_below_2048)
    with 2 show ?thesis by (simp add: is_inf_def)
  qed
qed

lemma fadd_in_table_range:
  assumes "is_f32 a" and "in_table_range a" and "is_f32 b" and "in_table_range b"
  shows "fadd a b = NZero \<or>
         (\<exists>r. fadd a b = Fin r \<and> 0 \<le> r \<and> r \<le> 4096 - 2 powi (- 12) \<and> rnd r = r)"
proof -
  note A = in_table_range_rv [OF assms(1,2)] and B = in_table_range_rv [OF assms(3,4)]
  have sum: "fadd a b = (if rv a + rv b = 0 then fzero (a = NZero \<and> b = NZero)
                         else fl (rv a + rv b))"
    using A B by (simp add: fadd_def)
  show ?thesis
  proof (cases "rv a + rv b = 0")
    case True
    with sum show ?thesis by (auto simp: fzero_def rnd_zero power_int_minus)
  next
    case False
    have "(2048 - 2 powi (- 13)) + (2048 - 2 powi (- 13)) = (4096::real) - 2 powi (- 12)"
      by (simp add: power_int_minus)
    with A B have le: "rv a + rv b \<le> 4096 - 2 powi (- 12)" by linarith
    have nn: "0 \<le> rv a + rv b" using A B by simp
    have "(4096::real) - 2 powi (- 12) < 2 powi 128" by (simp add: power_int_minus)
    with nn le rnd_top
    have "\<exists>r. fl (rv a + rv b) = Fin r \<and> 0 \<le> r \<and> r \<le> 4096 - 2 powi (- 12) \<and> is_f32 (Fin r)"
      by (intro fl_between)
    with sum False show ?thesis by (auto simp: is_f32_Fin)
  qed
qed

lemma wrap_in_table_range:
  assumes "c = NZero \<or> (c = Fin r \<and> 0 \<le> r \<and> r \<le> 4096 - 2 powi (- 12) \<and> rnd r = r)"
  shows "in_table_range (wrap c) \<and> is_f32 (wrap c)"
proof -
  consider "c = NZero" | "c = Fin r" "0 \<le> r" "r < 2048" "rnd r = r"
    | "c = Fin r" "2048 \<le> r" "r < 4096" "rnd r = r"
    using assms by (auto simp: power_int_minus) linarith
  then show ?thesis
  proof cases
    case 1
    then show ?thesis
      by (simp add: wrap_def f32_TAB_LEN fge_def in_table_range_NZero is_f32_special)
  next
    case 2
    then show ?thesis
      by (simp add: wrap_def f32_TAB_LEN fge_def in_table_range_Fin is_f32_Fin)
  next
    case 3
    have ex: "rnd (r - 2048) = r - 2048" using 3(4,2,3) by (rule sub_2048_exact)
    have "fsub (Fin r) (Fin 2048) = (if r - 2048 = 0 then Fin 0 else fl (r - 2048))"
      by (simp add: fsub_def fadd_def is_inf_def fzero_def)
    also have "\<dots> = Fin (r - 2048)"
      using ex 3(2,3) by (simp add: fl_exact)
    finally have "wrap c = Fin (r - 2048)"
      using 3 by (simp add: wrap_def f32_TAB_LEN fge_def)
    then show ?thesis
      using ex 3(2,3) by (simp add: in_table_range_Fin is_f32_Fin)
  qed
qed

lemma int_of_in_table_range:
  assumes "is_f32 c" and "in_table_range c"
  shows "\<exists>i. 0 \<le> i \<and> i < 2048 \<and> int_of_f32 c = Inr i"
proof -
  from in_table_range_cases [OF assms]
  consider "c = NZero" | x where "c = Fin x" "0 \<le> x" "x < 2048" by blast
  then show ?thesis
  proof cases
    case 1
    then show ?thesis by simp
  next
    case 2
    then have "0 \<le> \<lfloor>x\<rfloor>" "\<lfloor>x\<rfloor> < 2048" by (simp_all add: floor_less_iff)
    with 2 show ?thesis by (simp add: trunc_def)
  qed
qed

lemma render_in_table_range:
  assumes "is_f32 (idx s)" and "is_f32 (idx_inc s)"
    and "in_table_range (idx s)" and "in_table_range (idx_inc s)"
  shows "in_table_range (idx (fst (render s)))" "is_f32 (idx (fst (render s)))"
    "\<exists>i. 0 \<le> i \<and> i < 2048 \<and> int_of_f32 (idx (fst (render s))) = Inr i \<and>
         snd (render s) = Inr (wavetable s i)"
proof -
  have w: "in_table_range (wrap (fadd (idx s) (idx_inc s))) \<and>
           is_f32 (wrap (fadd (idx s) (idx_inc s)))"
    using fadd_in_table_range [OF assms(1,3,2,4)] wrap_in_table_range by blast
  then show "in_table_range (idx (fst (render s)))" "is_f32 (idx (fst (render s)))"
    by (simp_all add: render_state)
  from w obtain i where "0 \<le> i" "i < 2048" "int_of_f32 (wrap (fadd (idx s) (idx_inc s))) = Inr i"
    using int_of_in_table_range by blast
  then show "\<exists>i. 0 \<le> i \<and> i < 2048 \<and> int_of_f32 (idx (fst (render s))) = Inr i \<and>
         snd (render s) = Inr (wavetable s i)"
    by (simp add: render_state render_sample table_read_def TAB_LEN_def)
qed

section \<open>Evaluation and the operations on concrete values\<close>

text \<open>The equations that evaluate a rounding at a rational number.\<close>

lemmas f32_eval = fl_def rnd_def ulp_def expo_def scan_exp_numeral rne_def Let_def

lemma renders_in_table_range:
  assumes "is_f32 (idx s)" and "is_f32 (idx_inc s)"
    and "in_table_range (idx s)" and "in_table_range (idx_inc s)"
  shows "is_f32 (idx (((\<lambda>t. fst (render t)) ^^ n) s)) \<and>
         in_table_range (idx (((\<lambda>t. fst (render t)) ^^ n) s)) \<and>
         idx_inc (((\<lambda>t. fst (render t)) ^^ n) s) = idx_inc s"
proof (induction n)
  case 0
  with assms show ?case by simp
next
  case (Suc n)
  let ?t = "((\<lambda>t. fst (render t)) ^^ n) s"
  from Suc assms(2,4) have "is_f32 (idx ?t)" "is_f32 (idx_inc ?t)"
    "in_table_range (idx ?t)" "in_table_range (idx_inc ?t)" by simp_all
  then have "in_table_range (idx (fst (render ?t)))" "is_f32 (idx (fst (render ?t)))"
    by (rule render_in_table_range)+
  with Suc show ?case by (simp add: render_frame)
qed

lemma rnd_scale_2048:
  assumes "rnd x = x" and "\<bar>2048 * x\<bar> < 2 powi 128"
  shows "rnd (2048 * x) = 2048 * x"
proof -
  define m where "m = rne (x / ulp x)"
  define k where "k = expo x - 23"
  have x: "x = of_int m * 2 powi k"
    using assms(1) by (simp only: rnd_def ulp_def m_def k_def)
  have "\<bar>x\<bar> \<le> \<bar>2048 * x\<bar>" by simp
  with assms(2) have "\<bar>x\<bar> < 2 powi 128" by linarith
  then have m: "\<bar>m\<bar> \<le> 2 ^ 24" unfolding m_def by (rule rnd_mantissa)
  have k: "- 149 \<le> k + 11" using expo_ge [of x] by (simp add: k_def)
  have e: "2048 * x = of_int m * 2 powi (k + 11)"
    by (subst x) (simp add: p2_add)
  have "\<bar>real_of_int m * 2 powi (k + 11)\<bar> < 2 powi 128"
    using assms(2) by (simp only: e)
  with m k have "rnd (of_int m * 2 powi (k + 11)) = of_int m * 2 powi (k + 11)"
    by (rule rnd_repr)
  then show ?thesis by (simp only: e)
qed

lemma fmul_2048:
  assumes "is_f32 (Fin x)" and "\<bar>2048 * x\<bar> < 2 powi 128"
  shows "fmul (Fin 2048) (Fin x) = Fin (2048 * x)"
proof -
  from assms(1) have "rnd x = x" by (simp add: is_f32_Fin)
  then have "rnd (2048 * x) = 2048 * x" using assms(2) by (rule rnd_scale_2048)
  then have "fl (2048 * x) = Fin (2048 * x)" using assms(2) by (rule fl_exact)
  then show ?thesis
    by (simp add: fmul_def is_inf_def fzero_def)
qed

lemma setF0_value:
  assumes "is_f32 (Fin x)" and "\<bar>2048 * x\<bar> < 2 powi 128" and "x \<noteq> 0" and "y \<noteq> 0"
    and "fs s = Fin y"
  shows "idx_inc (setF0 s (Fin x)) = fl (2048 * x / y)"
  using assms fmul_2048 [OF assms(1,2)]
  by (simp add: setF0_def f32_TAB_LEN fdiv_def is_inf_def is_zero_def)

lemma render_at_0_inc_1024:
  assumes "idx s = Fin 0" and "idx_inc s = Fin 1024"
  shows "render s = (s\<lparr>idx := Fin 1024\<rparr>, Inr (wavetable s 1024))"
proof -
  have "fadd (Fin 0) (Fin 1024) = Fin 1024"
    by (simp add: fadd_def is_inf_def f32_eval)
  then have "wrap (fadd (idx s) (idx_inc s)) = Fin 1024"
    by (simp add: assms wrap_def f32_TAB_LEN fge_def)
  then show ?thesis
    by (simp add: prod_eq_iff render_state render_sample table_read_def TAB_LEN_def trunc_def)
qed

lemma render_at_1024_inc_1024:
  assumes "idx s = Fin 1024" and "idx_inc s = Fin 1024"
  shows "render s = (s\<lparr>idx := Fin 0\<rparr>, Inr (wavetable s 0))"
proof -
  have "fadd (Fin 1024) (Fin 1024) = Fin 2048"
    by (simp add: fadd_def is_inf_def f32_eval)
  then have "wrap (fadd (idx s) (idx_inc s)) = Fin 0"
    by (simp add: assms wrap_def f32_TAB_LEN fge_def fsub_def fadd_def is_inf_def fzero_def)
  then show ?thesis
    by (simp add: prod_eq_iff render_state render_sample table_read_def TAB_LEN_def trunc_def)
qed

lemma nyquist_increment:
  "idx_inc (Oscillator sn raw (Fin 48000) (Fin 24000)) = Fin 1024"
  by (simp add: Oscillator_fields fmul_def fdiv_def is_inf_def is_zero_def f32_eval)

lemma nyquist_states:
  "((\<lambda>t. fst (render t)) ^^ n) (Oscillator sn raw (Fin 48000) (Fin 24000)) =
     (Oscillator sn raw (Fin 48000) (Fin 24000))\<lparr>idx := if even n then Fin 0 else Fin 1024\<rparr>"
proof (induction n)
  case 0
  have "idx (Oscillator sn raw (Fin 48000) (Fin 24000)) = Fin 0"
    by (rule Oscillator_fields)
  then show ?case by (simp add: oscillator.equality)
next
  case (Suc n)
  let ?o = "Oscillator sn raw (Fin 48000) (Fin 24000)"
  show ?case
  proof (cases "even n")
    case True
    with Suc have "((\<lambda>t. fst (render t)) ^^ n) ?o = ?o\<lparr>idx := Fin 0\<rparr>" by simp
    then show ?thesis
      using True render_at_0_inc_1024 [of "?o\<lparr>idx := Fin 0\<rparr>"]
      by (simp add: nyquist_increment)
  next
    case False
    with Suc have "((\<lambda>t. fst (render t)) ^^ n) ?o = ?o\<lparr>idx := Fin 1024\<rparr>" by simp
    then show ?thesis
      using False render_at_1024_inc_1024 [of "?o\<lparr>idx := Fin 1024\<rparr>"]
      by (simp add: nyquist_increment)
  qed
qed

lemma rv_fl: "\<bar>rnd x\<bar> < 2 powi 128 \<Longrightarrow> rv (fl x) = rnd x"
  unfolding fl_def Let_def by auto

lemma fl_finite:
  "\<bar>rnd x\<bar> < 2 powi 128 \<Longrightarrow> fl x = Fin (rnd x) \<or> (fl x = NZero \<and> rnd x = 0)"
  unfolding fl_def Let_def by auto

lemma fl_not_NaN: "fl x \<noteq> NaN"
  unfolding fl_def Let_def by auto

lemma rnd_4096: "rnd 4096 = 4096"
  using rnd_repr [of 4096 0] by simp

text \<open>The accumulator after \<^verbatim>\<open>render\<close>, in real numbers.\<close>

lemma render_real:
  assumes "idx s = Fin x" and "idx_inc s = Fin y" and "\<bar>rnd (x + y)\<bar> < 2 powi 128"
  shows "rv (idx (fst (render s))) =
           (if 2048 \<le> rnd (x + y) then rnd (rnd (x + y) - 2048) else rnd (x + y))"
proof -
  define z where "z = rnd (x + y)"
  define c where "c = fadd (Fin x) (Fin y)"
  have zz: "rnd z = z" unfolding z_def using assms(3) by (rule rnd_idem)
  have c: "c = (if x + y = 0 then Fin 0 else fl (x + y))"
    by (simp add: c_def fadd_def is_inf_def fzero_def)
  have rvc: "rv c = z"
    using assms(3) by (simp add: c z_def rv_fl rnd_zero)
  have fin: "c = Fin z \<or> c = NZero"
    using fl_finite [OF assms(3)] by (auto simp: c z_def rnd_zero)
  then have rk: "rank c = 0" "c \<noteq> NaN" by auto
  have ge: "fge c (Fin 2048) \<longleftrightarrow> 2048 \<le> z"
    using rk rvc by (simp add: fge_def)
  show ?thesis
  proof (cases "2048 \<le> z")
    case True
    with fin rvc have cz: "c = Fin z" by auto
    have "0 \<le> z - 2048" using True by simp
    then have lo: "0 \<le> rnd (z - 2048)" by (rule rnd_nonneg)
    have "rnd (z - 2048) \<le> rnd z" by (rule rnd_mono) simp
    with zz have "rnd (z - 2048) \<le> z" by simp
    with lo assms(3) have bd: "\<bar>rnd (z - 2048)\<bar> < 2 powi 128" by (simp add: z_def)
    have "fsub c (Fin 2048) = (if z - 2048 = 0 then Fin 0 else fl (z - 2048))"
      by (simp add: cz fsub_def fadd_def is_inf_def fzero_def)
    then have "rv (fsub c (Fin 2048)) = rnd (z - 2048)"
      using bd by (simp add: rv_fl rnd_zero)
    with True ge show ?thesis
      by (simp add: render_state assms(1,2) wrap_def f32_TAB_LEN c_def [symmetric] z_def [symmetric])
  next
    case False
    with ge rvc show ?thesis
      by (simp add: render_state assms(1,2) wrap_def f32_TAB_LEN c_def [symmetric] z_def [symmetric])
  qed
qed

lemma setF0_beyond_sample_rate:
  assumes x: "is_f32 (Fin x)" and y: "is_f32 (Fin y)" and "0 < y" and "y \<le> x"
    and fs: "fs s = Fin y"
  shows "fge (idx_inc (setF0 s (Fin x))) (f32_of_int (uint TAB_LEN))"
proof -
  have xp: "0 < x" using assms(3,4) by simp
  have inc: "idx_inc (setF0 s (Fin x)) = fdiv (fmul (Fin 2048) (Fin x)) (Fin y)"
    by (simp add: setF0_def f32_TAB_LEN fs)
  have p: "fmul (Fin 2048) (Fin x) = fl (2048 * x)"
    using xp by (simp add: fmul_def is_inf_def)
  have pos: "0 < 2048 * x" using xp by simp
  show ?thesis
  proof (cases "\<bar>2048 * x\<bar> < 2 powi 128")
    case True
    have "fmul (Fin 2048) (Fin x) = Fin (2048 * x)" using x True by (rule fmul_2048)
    then have q: "idx_inc (setF0 s (Fin x)) = fl (2048 * x / y)"
      using xp assms(3) by (simp add: inc fdiv_def is_inf_def is_zero_def)
    have "2048 \<le> 2048 * x / y"
      using assms(3,4) by (simp add: pos_le_divide_eq)
    then have "rnd 2048 \<le> rnd (2048 * x / y)" by (rule rnd_mono)
    then have ge: "2048 \<le> rnd (2048 * x / y)" by (simp only: rnd_2048)
    have qp: "0 < 2048 * x / y" using xp assms(3) by simp
    have "fl (2048 * x / y) = PInf \<or> fl (2048 * x / y) = Fin (rnd (2048 * x / y))"
      using ge qp unfolding fl_def Let_def by auto
    with ge show ?thesis
      by (auto simp: q f32_TAB_LEN fge_def)
  next
    case False
    with pos have "2 powi 128 \<le> 2048 * x" by simp
    then have "2 powi 128 \<le> rnd (2048 * x)" by (rule rnd_big)
    then have "fl (2048 * x) = PInf"
      using pos unfolding fl_def Let_def by auto
    with p have "idx_inc (setF0 s (Fin x)) = PInf"
      using assms(3) by (simp add: inc fdiv_def is_inf_def finf_def)
    then show ?thesis by (simp add: f32_TAB_LEN fge_def)
  qed
qed

text \<open>A rounded sum of at least \<open>2 * 2048\<close> is still at least 2048 after the wrap.\<close>

lemma render_beyond_two_periods:
  assumes "idx t = Fin a" and "idx_inc t = Fin b" and "4096 \<le> a + b"
  shows "fge (idx (fst (render t))) (f32_of_int (uint TAB_LEN))"
    and "\<exists>e. snd (render t) = Inl e"
proof -
  define c where "c = fadd (Fin a) (Fin b)"
  have c: "c = fl (a + b)"
    using assms(3) by (simp add: c_def fadd_def is_inf_def)
  have "rnd 4096 \<le> rnd (a + b)" using assms(3) by (rule rnd_mono)
  then have z: "4096 \<le> rnd (a + b)" by (simp only: rnd_4096)
  have pos: "0 < a + b" using assms(3) by simp
  have cs: "c = PInf \<or> (c = Fin (rnd (a + b)) \<and> \<bar>rnd (a + b)\<bar> < 2 powi 128)"
    using z pos unfolding c fl_def Let_def by auto
  have w: "wrap c = PInf \<or> (\<exists>w. wrap c = Fin w \<and> 2048 \<le> w)"
  proof (cases "c = PInf")
    case True
    then show ?thesis
      by (simp add: wrap_def f32_TAB_LEN fge_def fsub_def fadd_def is_inf_def)
  next
    case False
    define z where "z = rnd (a + b)"
    from False cs have cz: "c = Fin z" and bd: "\<bar>z\<bar> < 2 powi 128" by (simp_all add: z_def)
    have z4: "4096 \<le> z" using z by (simp add: z_def)
    have zz: "rnd z = z" unfolding z_def using cs False by (intro rnd_idem) simp
    have "rnd 2048 \<le> rnd (z - 2048)" using z4 by (intro rnd_mono) simp
    then have lo: "2048 \<le> rnd (z - 2048)" by (simp only: rnd_2048)
    have "rnd (z - 2048) \<le> rnd z" by (rule rnd_mono) simp
    with zz bd lo have "\<bar>rnd (z - 2048)\<bar> < 2 powi 128" by simp
    then have "fl (z - 2048) = Fin (rnd (z - 2048))"
      using lo fl_finite [of "z - 2048"] by auto
    then have "wrap c = Fin (rnd (z - 2048))"
      using z4 by (simp add: cz wrap_def f32_TAB_LEN fge_def fsub_def fadd_def is_inf_def)
    with lo show ?thesis by blast
  qed
  have i: "idx (fst (render t)) = wrap c"
    by (simp add: render_state assms(1,2) c_def)
  from w show "fge (idx (fst (render t))) (f32_of_int (uint TAB_LEN))"
    by (auto simp: i f32_TAB_LEN fge_def)
  have "\<exists>e. (case int_of_f32 (wrap c) of Inl e \<Rightarrow> Inl e
              | Inr i \<Rightarrow> table_read (wavetable t) i) = Inl e"
  proof -
    from w consider "wrap c = PInf" | w where "wrap c = Fin w" "2048 \<le> w" by blast
    then show ?thesis
    proof cases
      case 1
      then show ?thesis by simp
    next
      case 2
      then have "2048 \<le> \<lfloor>w\<rfloor>" by (simp add: le_floor_iff)
      with 2 show ?thesis
        by (simp add: trunc_def table_read_def TAB_LEN_def)
    qed
  qed
  then show "\<exists>e. snd (render t) = Inl e"
    by (simp add: render_sample assms(1,2) c_def)
qed

lemma twice_sample_rate:
  "idx_inc (Oscillator sn raw (Fin 48000) (Fin 96000)) = Fin 4096"
  "idx (fst (render (Oscillator sn raw (Fin 48000) (Fin 96000)))) = Fin 2048"
  "snd (render (Oscillator sn raw (Fin 48000) (Fin 96000))) = Inl Index_Out_Of_Bounds"
proof -
  let ?o = "Oscillator sn raw (Fin 48000) (Fin 96000)"
  show inc: "idx_inc ?o = Fin 4096"
    by (simp add: Oscillator_fields fmul_def fdiv_def is_inf_def is_zero_def f32_eval)
  have "wrap (fadd (Fin 0) (Fin 4096)) = Fin 2048"
    by (simp add: wrap_def f32_TAB_LEN fadd_def fsub_def fge_def is_inf_def f32_eval)
  then have w: "wrap (fadd (idx ?o) (idx_inc ?o)) = Fin 2048"
    by (simp add: inc Oscillator_fields(1))
  then show "idx (fst (render ?o)) = Fin 2048"
    by (simp add: render_state)
  show "snd (render ?o) = Inl Index_Out_Of_Bounds"
    by (simp add: render_sample w trunc_def table_read_def TAB_LEN_def)
qed

section \<open>The table arguments\<close>

lemma M_2PI_value: "M_2PI = Fin (13176795 / 2097152)"
  by (simp add: M_2PI_def f32_eval)

lemma fl_eq_rnd: "\<bar>rnd x\<bar> < 2 powi 128 \<Longrightarrow> 0 \<le> x \<Longrightarrow> fl x = Fin (rnd x)"
  unfolding fl_def Let_def by auto

lemma expo_ge_of_le:
  assumes "2 powi e \<le> \<bar>x\<bar>" and "- 126 \<le> e" and "e \<le> 127"
  shows "e \<le> expo x"
proof -
  have "expo (2 powi e) = e"
    using assms(2,3) by (intro expo_eqI) (simp_all add: p2_less_iff p2_pos less_imp_le)
  moreover have "expo (2 powi e) \<le> expo x"
    using assms(1) by (intro expo_mono) (simp add: p2_pos less_imp_le)
  ultimately show ?thesis by simp
qed

lemma rnd_div_2048:
  assumes "rnd x = x" and "2 powi (- 115) \<le> \<bar>x\<bar>" and "\<bar>x\<bar> < 2 powi 128"
  shows "rnd (x / 2048) = x / 2048"
proof -
  define m where "m = rne (x / ulp x)"
  define k where "k = expo x - 23"
  have x: "x = of_int m * 2 powi k"
    using assms(1) by (simp only: rnd_def ulp_def m_def k_def)
  have m: "\<bar>m\<bar> \<le> 2 ^ 24" unfolding m_def using assms(3) by (rule rnd_mantissa)
  have "- 115 \<le> expo x" using assms(2) by (rule expo_ge_of_le) simp_all
  then have k: "- 149 \<le> k - 11" by (simp add: k_def)
  have e: "x / 2048 = of_int m * 2 powi (k - 11)"
    by (subst x) (simp add: p2_diff)
  have "\<bar>x / 2048\<bar> \<le> \<bar>x\<bar>" by simp
  with assms(3) have "\<bar>x / 2048\<bar> < 2 powi 128" by linarith
  then have "\<bar>real_of_int m * 2 powi (k - 11)\<bar> < 2 powi 128" by (simp only: e)
  with m k have "rnd (of_int m * 2 powi (k - 11)) = of_int m * 2 powi (k - 11)"
    by (rule rnd_repr)
  then show ?thesis by (simp only: e)
qed

lemma rnd_16384: "rnd 16384 = 16384"
  using rnd_repr [of 16384 0] by simp

lemma rnd_4: "rnd 4 = 4"
  using rnd_repr [of 4 0] by simp

text \<open>
  The argument of the sine for the table entry \<open>j\<close>: the product with the binary32
  constant is rounded, the division by 2048 is exact.
\<close>

lemma table_arg_value:
  assumes "0 \<le> j" and "j < 2048"
  shows "table_arg j = Fin (rnd (13176795 / 2097152 * of_int j) / 2048)"
proof (cases "j = 0")
  case True
  then show ?thesis
    by (simp add: table_arg_def M_2PI_value f32_zero f32_TAB_LEN fmul_def fdiv_def
        is_inf_def is_zero_def fzero_def rnd_zero)
next
  case False
  define p :: real where "p = 13176795 / 2097152 * of_int j"
  have j1: "1 \<le> j" using assms(1) False by simp
  then have jr: "1 \<le> real_of_int j" by simp
  have "real_of_int j < 2048" using assms(2) by simp
  then have pu: "p \<le> 16384" unfolding p_def by simp
  have pl: "4 \<le> p" unfolding p_def using jr by simp
  have "rnd 4 \<le> rnd p" "rnd p \<le> rnd 16384"
    using pl pu by (simp_all add: rnd_mono)
  then have r: "4 \<le> rnd p" "rnd p \<le> 16384" by (simp_all only: rnd_4 rnd_16384)
  then have bd: "\<bar>rnd p\<bar> < 2 powi 128" by simp
  have fj: "f32_of_int j = Fin (of_int j)"
    using assms by (intro f32_of_int_small) simp
  have "fmul M_2PI (f32_of_int j) = fl p"
    using pl by (simp add: M_2PI_value fj fmul_def is_inf_def p_def)
  also have "\<dots> = Fin (rnd p)" using bd pl by (intro fl_eq_rnd) simp_all
  finally have mul: "fmul M_2PI (f32_of_int j) = Fin (rnd p)" .
  have "rnd (rnd p) = rnd p" using bd by (rule rnd_idem)
  moreover have "2 powi (- 115) \<le> \<bar>rnd p\<bar>"
    using r(1) by (simp add: power_int_minus)
  ultimately have "rnd (rnd p / 2048) = rnd p / 2048" using bd by (rule rnd_div_2048)
  moreover have "\<bar>rnd p / 2048\<bar> < 2 powi 128" using r by simp
  ultimately have "fl (rnd p / 2048) = Fin (rnd p / 2048)" by (rule fl_exact)
  then show ?thesis
    using r(1) by (simp add: table_arg_def mul f32_TAB_LEN fdiv_def is_inf_def is_zero_def p_def)
qed

lemma rnd_1: "rnd 1 = 1"
  using rnd_repr [of 1 0] by simp

lemma rnd_1024: "rnd 1024 = 1024"
  using rnd_repr [of 1024 0] by simp

lemma fl_unit:
  assumes "- 1 \<le> x" and "x \<le> 1"
  shows "in_unit (fl x)"
proof -
  have "rnd (- 1) \<le> rnd x" "rnd x \<le> rnd 1" using assms by (simp_all add: rnd_mono)
  then have r: "- 1 \<le> rnd x" "rnd x \<le> 1" by (simp_all add: rnd_minus rnd_1)
  then have "\<bar>rnd x\<bar> < 2 powi 128" by simp
  then have "fl x = Fin (rnd x) \<or> (fl x = NZero \<and> rnd x = 0)" by (rule fl_finite)
  with r show ?thesis by (auto simp: in_unit_def fge_def)
qed

lemma sin_rn_in_unit: "in_unit (sin_rn (Fin x))"
  by (simp add: fl_unit)

lemma setF0_sub_nyquist:
  assumes "is_f32 (Fin x)" and "0 < x" and "x < y / 2" and "y \<le> 2 powi 118" and "fs t = Fin y"
  shows "is_f32 (idx_inc (setF0 t (Fin x)))" "in_table_range (idx_inc (setF0 t (Fin x)))"
proof -
  have "y / 2 \<le> 2 powi 117" using assms(4) by simp
  with assms(2,3) have "\<bar>2048 * x\<bar> < 2 powi 128" by simp
  moreover have "x \<noteq> 0" "y \<noteq> 0" using assms(2,3) by simp_all
  ultimately have v: "idx_inc (setF0 t (Fin x)) = fl (2048 * x / y)"
    using assms(1,5) by (intro setF0_value)
  have yp: "0 < y" using assms(2,3) by simp
  then have "0 \<le> 2048 * x / y" "2048 * x / y \<le> 1024"
    using assms(2,3) by (simp_all add: pos_divide_le_eq)
  then have "\<exists>r. fl (2048 * x / y) = Fin r \<and> 0 \<le> r \<and> r \<le> 1024 \<and> is_f32 (Fin r)"
    using rnd_1024 by (intro fl_between) simp_all
  then obtain r where "fl (2048 * x / y) = Fin r" "0 \<le> r" "r \<le> 1024" "is_f32 (Fin r)"
    by blast
  then show "is_f32 (idx_inc (setF0 t (Fin x)))" "in_table_range (idx_inc (setF0 t (Fin x)))"
    by (simp_all add: v in_table_range_Fin)
qed

lemma samples_in_unit:
  assumes "fs t = Fin y" and "y \<le> 2 powi 118"
    and "is_f32 (idx t)" and "is_f32 (idx_inc t)"
    and "in_table_range (idx t)" and "in_table_range (idx_inc t)"
    and "\<And>j. 0 \<le> j \<Longrightarrow> j < 2048 \<Longrightarrow> in_unit (wavetable t j)"
    and "valid_ops (Fin y) ops"
  shows "list_all sample_in_unit (samples t ops)"
  using assms
proof (induction ops arbitrary: t)
  case Nil
  then show ?case by simp
next
  case (Cons a ops)
  show ?case
  proof (cases a)
    case (SetF0 f)
    with Cons.prems(8) have sn: "sub_nyquist (Fin y) f" and v: "valid_ops (Fin y) ops"
      by simp_all
    from sn obtain x where f: "f = Fin x" and x: "is_f32 (Fin x)" "0 < x" "x < y / 2"
      by (cases f) simp_all
    have i: "is_f32 (idx_inc (setF0 t f))" "in_table_range (idx_inc (setF0 t f))"
      unfolding f using x Cons.prems(2,1) by (rule setF0_sub_nyquist)+
    have "list_all sample_in_unit (samples (setF0 t f) ops)"
      using Cons.prems(1-3,5,7) i v by (intro Cons.IH) (simp_all add: setF0_frame)
    then show ?thesis by (simp add: SetF0)
  next
    case Render
    with Cons.prems(8) have v: "valid_ops (Fin y) ops" by simp
    note R = render_in_table_range [OF Cons.prems(3,4,5,6)]
    from R(3) Cons.prems(7) have s: "sample_in_unit (snd (render t))" by auto
    have "list_all sample_in_unit (samples (fst (render t)) ops)"
      using Cons.prems(1,2,4,6,7) R(1,2) v by (intro Cons.IH) (simp_all add: render_frame)
    with s show ?thesis by (simp add: Render)
  qed
qed

lemma Oscillator_table_in_unit:
  assumes "\<forall>x. in_unit (sn (Fin x))" and "0 \<le> j" and "j < 2048"
  shows "in_unit (wavetable (Oscillator sn raw rate f) j)"
  using assms by (simp add: Oscillator_wavetable table_arg_value)

section \<open>Bounds of \<open>pi\<close> from the Taylor series of the sine\<close>

lemma sum_lessThan_numeral:
  "sum g {..<numeral k} = sum g {..<pred_numeral k} + g (pred_numeral k)" for g :: "nat \<Rightarrow> real"
  by (simp add: numeral_eq_Suc)

lemma sin_coeff_numeral:
  "sin_coeff 0 = 0" "sin_coeff 1 = 1" "sin_coeff (Suc 0) = 1"
  "sin_coeff (numeral k) =
     (if even (numeral k :: nat) then 0
      else (- 1) ^ ((numeral k - 1) div 2) / fact (numeral k))"
  by (simp_all add: sin_coeff_def)

lemma sin_poly_19:
  "(\<Sum>m<19. sin_coeff m * x ^ m) =
     x - x^3 / 6 + x^5 / 120 - x^7 / 5040 + x^9 / 362880 - x^11 / 39916800
       + x^13 / 6227020800 - x^15 / 1307674368000 + x^17 / 355687428096000" for x :: real
  by (simp add: sum_lessThan_numeral sin_coeff_numeral fact_numeral)

lemma sin_taylor_19:
  "\<bar>sin x - (x - x^3 / 6 + x^5 / 120 - x^7 / 5040 + x^9 / 362880 - x^11 / 39916800
       + x^13 / 6227020800 - x^15 / 1307674368000 + x^17 / 355687428096000)\<bar>
   \<le> \<bar>x\<bar> ^ 19 / 121645100408832000" for x :: real
proof -
  have "inverse (fact 19 :: real) * \<bar>x\<bar> ^ 19 = \<bar>x\<bar> ^ 19 / 121645100408832000"
    by (simp add: fact_numeral)
  then show ?thesis
    using Maclaurin_sin_bound [of x 19] by (simp only: sin_poly_19)
qed

lemma sin_taylor_19_le:
  "sin x \<le> x - x^3 / 6 + x^5 / 120 - x^7 / 5040 + x^9 / 362880 - x^11 / 39916800
       + x^13 / 6227020800 - x^15 / 1307674368000 + x^17 / 355687428096000
       + \<bar>x\<bar> ^ 19 / 121645100408832000" for x :: real
  using sin_taylor_19 [of x] by linarith

lemma sin_taylor_19_ge:
  "x - x^3 / 6 + x^5 / 120 - x^7 / 5040 + x^9 / 362880 - x^11 / 39916800
       + x^13 / 6227020800 - x^15 / 1307674368000 + x^17 / 355687428096000
       - \<bar>x\<bar> ^ 19 / 121645100408832000 \<le> sin x" for x :: real
  using sin_taylor_19 [of x] by linarith

lemma sin_lower: "0 < sin (392699 / 125000 :: real)"
proof -
  let ?x = "392699 / 125000 :: real"
  have "0 < ?x - ?x^3 / 6 + ?x^5 / 120 - ?x^7 / 5040 + ?x^9 / 362880 - ?x^11 / 39916800
       + ?x^13 / 6227020800 - ?x^15 / 1307674368000 + ?x^17 / 355687428096000
       - \<bar>?x\<bar> ^ 19 / 121645100408832000"
    by (simp add: power_divide)
  then show ?thesis using sin_taylor_19_ge [of ?x] by linarith
qed

lemma sin_upper: "sin (3141593 / 1000000 :: real) < 0"
proof -
  let ?x = "3141593 / 1000000 :: real"
  have "?x - ?x^3 / 6 + ?x^5 / 120 - ?x^7 / 5040 + ?x^9 / 362880 - ?x^11 / 39916800
       + ?x^13 / 6227020800 - ?x^15 / 1307674368000 + ?x^17 / 355687428096000
       + \<bar>?x\<bar> ^ 19 / 121645100408832000 < 0"
    by (simp add: power_divide)
  then show ?thesis using sin_taylor_19_le [of ?x] by linarith
qed

lemma pi_lower: "392699 / 125000 < pi"
proof (rule ccontr)
  assume "\<not> 392699 / 125000 < pi"
  then have "pi \<le> 392699 / 125000" by simp
  moreover have "(392699 / 125000 :: real) < 2 * pi" using pi_ge_two by simp
  ultimately have "sin (392699 / 125000 :: real) \<le> 0" by (rule sin_le_zero)
  with sin_lower show False by simp
qed

lemma pi_upper: "pi < 3141593 / 1000000"
proof (rule ccontr)
  assume "\<not> pi < 3141593 / 1000000"
  then have "3141593 / 1000000 \<le> pi" by simp
  moreover have "(0::real) \<le> 3141593 / 1000000" by simp
  ultimately have "0 \<le> sin (3141593 / 1000000 :: real)" by (intro sin_ge_zero)
  with sin_upper show False by simp
qed

section \<open>The accuracy of the table\<close>

lemma rnd_err: "\<bar>rnd x - x\<bar> \<le> ulp x / 2"
proof -
  have "\<bar>of_int (rne (x / ulp x)) - x / ulp x\<bar> \<le> 1 / 2" by (rule rne_err)
  then have "\<bar>of_int (rne (x / ulp x)) - x / ulp x\<bar> * ulp x \<le> 1 / 2 * ulp x"
    using ulp_pos [of x] by (simp only: mult_le_cancel_right_pos)
  moreover have "\<bar>of_int (rne (x / ulp x)) - x / ulp x\<bar> * ulp x = \<bar>rnd x - x\<bar>"
  proof -
    have "\<bar>of_int (rne (x / ulp x)) - x / ulp x\<bar> * ulp x =
          \<bar>(of_int (rne (x / ulp x)) - x / ulp x) * ulp x\<bar>"
      using ulp_pos [of x] by (simp add: abs_mult)
    also have "(of_int (rne (x / ulp x)) - x / ulp x) * ulp x = rnd x - x"
      using ulp_pos [of x] by (simp add: rnd_def left_diff_distrib)
    finally show ?thesis .
  qed
  ultimately show ?thesis by simp
qed

lemma expo_less:
  assumes "\<bar>x\<bar> < 2 powi e" and "- 126 < e"
  shows "expo x < e"
proof (cases "expo x = - 126")
  case True
  with assms(2) show ?thesis by simp
next
  case False
  then have "2 powi (expo x) \<le> \<bar>x\<bar>" by (rule expo_lower)
  with assms(1) have "(2::real) powi (expo x) < 2 powi e" by simp
  then show ?thesis by (simp only: p2_less_iff)
qed

lemma ulp_le:
  assumes "\<bar>x\<bar> < 2 powi e" and "- 126 < e"
  shows "ulp x \<le> 2 powi (e - 24)"
proof -
  have "expo x < e" using assms by (rule expo_less)
  then have "expo x - 23 \<le> e - 24" by simp
  then show ?thesis unfolding ulp_def by (simp only: p2_le_iff)
qed

lemma rnd_14336: "rnd 14336 = 14336"
  using rnd_repr [of 14336 0] by simp

lemma sin_lipschitz: "\<bar>sin w - sin z\<bar> \<le> \<bar>w - z\<bar>" for w z :: real
proof -
  have "\<bar>sin w - sin z\<bar> = 2 * \<bar>sin ((w - z) / 2)\<bar> * \<bar>cos ((w + z) / 2)\<bar>"
    by (simp add: sin_diff_sin abs_mult)
  also have "\<dots> \<le> 2 * \<bar>(w - z) / 2\<bar> * 1"
    by (intro mult_mono mult_left_mono abs_sin_x_le_abs_x) simp_all
  finally show ?thesis by simp
qed

lemma table_arg_error:
  assumes "0 \<le> j" and "j < 2048"
  shows "\<exists>a. table_arg j = Fin a \<and> 0 \<le> a \<and> a \<le> 7 \<and>
             \<bar>a - 2 * pi * of_int j / 2048\<bar> \<le> 2 / 1000000"
proof -
  define c :: real where "c = 13176795 / 2097152"
  define p where "p = c * of_int j"
  define a where "a = rnd p / 2048"
  have ta: "table_arg j = Fin a"
    using table_arg_value [OF assms] by (simp add: a_def p_def c_def)
  have j: "0 \<le> real_of_int j" "real_of_int j \<le> 2047" using assms by simp_all
  have p0: "0 \<le> p" unfolding p_def c_def using j by simp
  have "p \<le> c * 2047" unfolding p_def c_def using j by simp
  then have pu: "p \<le> 14336" by (simp add: c_def)
  have "0 \<le> rnd p" using p0 by (rule rnd_nonneg)
  moreover have "rnd p \<le> rnd 14336" using pu by (rule rnd_mono)
  ultimately have a_rng: "0 \<le> a" "a \<le> 7" by (simp_all add: a_def rnd_14336)
  have "\<bar>p\<bar> < 2 powi 14" using p0 pu by simp
  then have "ulp p \<le> 2 powi (14 - 24)" by (rule ulp_le) simp
  with rnd_err [of p] have "\<bar>rnd p - p\<bar> \<le> 2 powi (- 10) / 2" by simp
  then have r: "\<bar>rnd p - p\<bar> \<le> 1 / 2048" by (simp add: power_int_minus)
  have "a - p / 2048 = (rnd p - p) / 2048"
    unfolding a_def by (rule diff_divide_distrib [symmetric])
  then have "\<bar>a - p / 2048\<bar> = \<bar>rnd p - p\<bar> / 2048" by (simp only: abs_divide abs_numeral)
  moreover from r have "\<bar>rnd p - p\<bar> / 2048 \<le> 1 / 2048 / 2048"
    by (rule divide_right_mono) simp
  ultimately have e1: "\<bar>a - p / 2048\<bar> \<le> 1 / 4194304" by simp
  have cb: "\<bar>c - 2 * pi\<bar> \<le> 149 / 100000000"
    using pi_lower pi_upper unfolding c_def by linarith
  have q: "0 \<le> real_of_int j / 2048" "real_of_int j / 2048 \<le> 1" using j by simp_all
  have "p / 2048 - 2 * pi * of_int j / 2048 = (c - 2 * pi) * (of_int j / 2048)"
    by (simp add: p_def left_diff_distrib)
  then have "\<bar>p / 2048 - 2 * pi * of_int j / 2048\<bar> = \<bar>c - 2 * pi\<bar> * (of_int j / 2048)"
    using q(1) by (simp only: abs_mult abs_of_nonneg)
  also have "\<dots> \<le> \<bar>c - 2 * pi\<bar> * 1"
    using q(2) by (intro mult_left_mono) simp_all
  finally have e2: "\<bar>p / 2048 - 2 * pi * of_int j / 2048\<bar> \<le> 149 / 100000000"
    using cb by simp
  from e1 e2 have "\<bar>a - 2 * pi * of_int j / 2048\<bar> \<le> 2 / 1000000" by linarith
  with ta a_rng show ?thesis by blast
qed

lemma table_entry_accuracy:
  assumes "\<forall>x. 0 \<le> x \<and> x \<le> 7 \<longrightarrow> is_finite (sn (Fin x)) \<and> \<bar>rv (sn (Fin x)) - sin x\<bar> \<le> eps"
    and "0 \<le> j" and "j < 2048"
  shows "is_finite (sn (table_arg j))"
    and "\<bar>rv (sn (table_arg j)) - sin (2 * pi * of_int j / 2048)\<bar> \<le> eps + 2 / 1000000"
proof -
  from table_arg_error [OF assms(2,3)] obtain a where a: "table_arg j = Fin a" "0 \<le> a" "a \<le> 7"
    "\<bar>a - 2 * pi * of_int j / 2048\<bar> \<le> 2 / 1000000" by blast
  from assms(1) a(2,3) have s: "is_finite (sn (Fin a))" "\<bar>rv (sn (Fin a)) - sin a\<bar> \<le> eps"
    by simp_all
  from s(1) show "is_finite (sn (table_arg j))" by (simp add: a(1))
  have "\<bar>sin a - sin (2 * pi * of_int j / 2048)\<bar> \<le> \<bar>a - 2 * pi * of_int j / 2048\<bar>"
    by (rule sin_lipschitz)
  with a(4) s(2) show "\<bar>rv (sn (table_arg j)) - sin (2 * pi * of_int j / 2048)\<bar> \<le> eps + 2 / 1000000"
    unfolding a(1) by linarith
qed

lemma sin_rn_accurate:
  "is_finite (sin_rn (Fin x))" "\<bar>rv (sin_rn (Fin x)) - sin x\<bar> \<le> 1 / 10000000"
proof -
  have "rnd (- 1) \<le> rnd (sin x)" "rnd (sin x) \<le> rnd 1" by (simp_all add: rnd_mono)
  then have "\<bar>rnd (sin x)\<bar> \<le> 1" by (simp add: rnd_minus rnd_1)
  then have bd: "\<bar>rnd (sin x)\<bar> < 2 powi 128" by simp
  from fl_finite [OF bd] show "is_finite (sin_rn (Fin x))" by auto
  have "(2::real) powi 1 = 2" by simp
  moreover have "\<bar>sin x\<bar> \<le> 1" by (rule abs_sin_le_one)
  ultimately have "\<bar>sin x\<bar> < 2 powi 1" by linarith
  then have "ulp (sin x) \<le> 2 powi (1 - 24)" by (rule ulp_le) simp
  then have "ulp (sin x) / 2 \<le> 1 / 10000000" by (simp add: power_int_minus)
  with rnd_err [of "sin x"] have "\<bar>rnd (sin x) - sin x\<bar> \<le> 1 / 10000000" by linarith
  then show "\<bar>rv (sin_rn (Fin x)) - sin x\<bar> \<le> 1 / 10000000"
    using bd by (simp add: rv_fl)
qed

lemma sin_poly_5:
  "(\<Sum>m<5. sin_coeff m * x ^ m) = x - x^3 / 6" for x :: real
  by (simp add: sum_lessThan_numeral sin_coeff_numeral fact_numeral)

lemma sin_taylor_5: "\<bar>sin x - (x - x^3 / 6)\<bar> \<le> \<bar>x\<bar> ^ 5 / 120" for x :: real
proof -
  have "inverse (fact 5 :: real) * \<bar>x\<bar> ^ 5 = \<bar>x\<bar> ^ 5 / 120"
    by (simp add: fact_numeral)
  then show ?thesis
    using Maclaurin_sin_bound [of x 5] by (simp only: sin_poly_5)
qed

text \<open>The real sine at \<open>2 pi 18 / 2048\<close>, the entry that scenario A reads.\<close>

lemma sin_entry_18: "\<bar>sin (2 * pi * of_int 18 / 2048) - 552 / 10000\<bar> \<le> 5 / 100000"
proof -
  define t where "t = 2 * pi * of_int 18 / 2048"
  have lo: "55223 / 1000000 \<le> t" and hi: "t \<le> 55224 / 1000000"
    using pi_lower pi_upper unfolding t_def by simp_all
  have t0: "0 \<le> t" using lo by simp
  have "t ^ 3 \<le> (55224 / 1000000) ^ 3" "t ^ 5 \<le> (55224 / 1000000) ^ 5"
    using t0 hi by (simp_all add: power_mono)
  then have p: "t ^ 3 / 6 \<le> 3 / 100000" "\<bar>t\<bar> ^ 5 / 120 \<le> 1 / 100000"
    using t0 by (simp_all add: power_divide)
  have "0 \<le> t ^ 3" using t0 by simp
  with sin_taylor_5 [of t] p lo hi have "\<bar>sin t - 552 / 10000\<bar> \<le> 5 / 100000"
    by linarith
  then show ?thesis by (simp only: t_def)
qed

lemma scenario_A_increment:
  "idx_inc (Oscillator sn raw (Fin 48000) (Fin 440)) = Fin (9842633 / 524288)"
  by (simp add: Oscillator_fields fmul_def fdiv_def is_inf_def is_zero_def f32_eval)

lemma scenario_A_render:
  "idx (fst (render (Oscillator sn raw (Fin 48000) (Fin 440)))) = Fin (9842633 / 524288)"
  "int_of_f32 (idx (fst (render (Oscillator sn raw (Fin 48000) (Fin 440))))) = Inr 18"
  "snd (render (Oscillator sn raw (Fin 48000) (Fin 440))) = Inr (sn (table_arg 18))"
proof -
  let ?o = "Oscillator sn raw (Fin 48000) (Fin 440)"
  have "wrap (fadd (Fin 0) (Fin (9842633 / 524288))) = Fin (9842633 / 524288)"
    by (simp add: wrap_def f32_TAB_LEN fadd_def fge_def is_inf_def f32_eval)
  then have w: "wrap (fadd (idx ?o) (idx_inc ?o)) = Fin (9842633 / 524288)"
    by (simp only: scenario_A_increment Oscillator_fields(1))
  then show i: "idx (fst (render ?o)) = Fin (9842633 / 524288)"
    by (simp add: render_state)
  have t: "int_of_f32 (Fin (9842633 / 524288)) = Inr 18"
    by (simp add: trunc_def)
  then show "int_of_f32 (idx (fst (render ?o))) = Inr 18" by (simp only: i)
  show "snd (render ?o) = Inr (sn (table_arg 18))"
    by (simp add: render_sample w t table_read_def TAB_LEN_def Oscillator_wavetable
        del: int_of_f32.simps)
qed

section \<open>The claims\<close>

text \<open>
  C1. For every oscillator state, \<^verbatim>\<open>render\<close> advances the accumulator by the increment,
  subtracts the table length once when the sum has reached it (one conditional
  subtraction, no modulo), and returns the table entry at the truncation of the wrapped
  accumulator; no other member changes. Where the truncation is no index of the table,
  the read is undefined behaviour. For finite operands whose sum does not overflow, the
  new accumulator is the rounded sum, less 2048 once when it is at least 2048.
\<close>

theorem render_advances_wraps_once_and_reads:
  "fst (render s) = s\<lparr>idx := wrap (fadd (idx s) (idx_inc s))\<rparr> \<and>
   wrap (fadd (idx s) (idx_inc s)) =
     (if fge (fadd (idx s) (idx_inc s)) (f32_of_int 2048)
      then fsub (fadd (idx s) (idx_inc s)) (f32_of_int 2048)
      else fadd (idx s) (idx_inc s)) \<and>
   snd (render s) =
     (case int_of_f32 (idx (fst (render s))) of
        Inl e \<Rightarrow> Inl e
      | Inr i \<Rightarrow> if 0 \<le> i \<and> i < 2048 then Inr (wavetable s i) else Inl Index_Out_Of_Bounds) \<and>
   (\<forall>x y. idx s = Fin x \<and> idx_inc s = Fin y \<and> \<bar>rnd (x + y)\<bar> < 2 powi 128 \<longrightarrow>
      rv (idx (fst (render s))) =
        (if 2048 \<le> rnd (x + y) then rnd (rnd (x + y) - 2048) else rnd (x + y)))"
  using render_real [of s]
  by (simp add: render_state render_sample wrap_def table_read_def TAB_LEN_def split: sum.splits)

theorem render_advances_wraps_once_and_reads_witness:
  "idx (raw0\<lparr>idx := Fin (401 / 4), idx_inc := Fin 6144\<rparr>) = Fin (401 / 4) \<and>
   idx_inc (raw0\<lparr>idx := Fin (401 / 4), idx_inc := Fin 6144\<rparr>) = Fin 6144 \<and>
   \<bar>rnd (401 / 4 + 6144)\<bar> < 2 powi 128 \<and>
   2048 \<le> rnd (401 / 4 + 6144) \<and>
   rv (idx (fst (render (raw0\<lparr>idx := Fin (401 / 4), idx_inc := Fin 6144\<rparr>)))) = 16785 / 4 \<and>
   snd (render (raw0\<lparr>idx := Fin (401 / 4), idx_inc := Fin 6144\<rparr>)) = Inl Index_Out_Of_Bounds"
proof -
  let ?s = "raw0\<lparr>idx := Fin (401 / 4), idx_inc := Fin 6144\<rparr>"
  have r: "rnd (24977 / 4) = 24977 / 4" "rnd (16785 / 4) = 16785 / 4"
    by (simp_all add: f32_eval)
  have h: "idx ?s = Fin (401 / 4) \<and> idx_inc ?s = Fin 6144 \<and> \<bar>rnd (401 / 4 + 6144)\<bar> < 2 powi 128"
    by (simp add: r)
  from render_advances_wraps_once_and_reads [of ?s]
  have st: "snd (render ?s) =
     (case int_of_f32 (idx (fst (render ?s))) of
        Inl e \<Rightarrow> Inl e
      | Inr i \<Rightarrow> if 0 \<le> i \<and> i < 2048 then Inr (wavetable ?s i) else Inl Index_Out_Of_Bounds)"
    and im: "idx ?s = Fin (401 / 4) \<and> idx_inc ?s = Fin 6144 \<and> \<bar>rnd (401 / 4 + 6144)\<bar> < 2 powi 128 \<longrightarrow>
      rv (idx (fst (render ?s))) =
        (if 2048 \<le> rnd (401 / 4 + 6144) then rnd (rnd (401 / 4 + 6144) - 2048)
         else rnd (401 / 4 + 6144))"
    by blast+
  from im h have "rv (idx (fst (render ?s))) =
        (if 2048 \<le> rnd (401 / 4 + 6144) then rnd (rnd (401 / 4 + 6144) - 2048)
         else rnd (401 / 4 + 6144))"
    by (rule mp)
  then have v: "rv (idx (fst (render ?s))) = 16785 / 4"
    by (simp add: r)
  have "fst (render ?s) = ?s\<lparr>idx := wrap (fadd (idx ?s) (idx_inc ?s))\<rparr>"
    using render_advances_wraps_once_and_reads [of ?s] by blast
  moreover have "wrap (fadd (Fin (401 / 4)) (Fin 6144)) = Fin (16785 / 4)"
    by (simp add: wrap_def f32_TAB_LEN fadd_def fsub_def fge_def is_inf_def f32_eval)
  ultimately have i: "idx (fst (render ?s)) = Fin (16785 / 4)" by simp
  have "snd (render ?s) = Inl Index_Out_Of_Bounds"
    by (subst st) (simp add: i trunc_def)
  with v h r show ?thesis by simp
qed

text \<open>
  C2. From a state whose accumulator and increment are binary32 values with
  \<open>0 \<le> idx < N\<close> and \<open>0 \<le> idx_inc < N\<close> (\<open>N = 2048\<close>), \<^verbatim>\<open>render\<close> leaves the
  accumulator in \<open>0 \<le> idx < N\<close>, reads the table inside its bounds and leaves the
  increment alone; so the range holds after any number of calls.
\<close>
theorem render_keeps_accumulator_in_table:
  assumes "is_f32 (idx s)" and "is_f32 (idx_inc s)"
    and "in_table_range (idx s)" and "in_table_range (idx_inc s)"
  shows "in_table_range (idx (fst (render s))) \<and>
         is_f32 (idx (fst (render s))) \<and>
         idx_inc (fst (render s)) = idx_inc s \<and>
         (\<exists>i. 0 \<le> i \<and> i < 2048 \<and> snd (render s) = Inr (wavetable s i)) \<and>
         in_table_range (idx (((\<lambda>t. fst (render t)) ^^ n) s))"
  using render_in_table_range [OF assms] renders_in_table_range [OF assms, of n]
  by (simp add: render_frame) blast

theorem render_keeps_accumulator_in_table_witness:
  "is_f32 (idx (raw0\<lparr>idx := Fin 2047.5, idx_inc := Fin 1.5\<rparr>)) \<and>
   is_f32 (idx_inc (raw0\<lparr>idx := Fin 2047.5, idx_inc := Fin 1.5\<rparr>)) \<and>
   in_table_range (idx (raw0\<lparr>idx := Fin 2047.5, idx_inc := Fin 1.5\<rparr>)) \<and>
   in_table_range (idx_inc (raw0\<lparr>idx := Fin 2047.5, idx_inc := Fin 1.5\<rparr>)) \<and>
   idx (fst (render (raw0\<lparr>idx := Fin 2047.5, idx_inc := Fin 1.5\<rparr>))) = Fin 1 \<and>
   in_table_range (idx (fst (render (raw0\<lparr>idx := Fin 2047.5, idx_inc := Fin 1.5\<rparr>)))) \<and>
   in_table_range
     (idx (((\<lambda>t. fst (render t)) ^^ 3) (raw0\<lparr>idx := Fin 2047.5, idx_inc := Fin 1.5\<rparr>)))"
proof -
  let ?s = "raw0\<lparr>idx := Fin 2047.5, idx_inc := Fin 1.5\<rparr>"
  have a: "is_f32 (idx ?s)" "is_f32 (idx_inc ?s)"
    by (simp_all add: is_f32_def f32_eval)
  have b: "in_table_range (idx ?s)" "in_table_range (idx_inc ?s)"
    by (simp_all add: in_table_range_Fin)
  have c: "idx (fst (render ?s)) = Fin 1"
    by (simp add: render_state wrap_def f32_TAB_LEN fadd_def fsub_def fge_def is_inf_def f32_eval)
  from a b c render_keeps_accumulator_in_table [OF a b, of 3] show ?thesis
    by simp
qed

text \<open>
  C3. A frequency at or beyond the sample rate gives an increment of at least
  \<open>N = 2048\<close>. When the accumulator and the increment add up to \<open>2 * N\<close> or more, the
  single subtraction leaves the accumulator at \<open>N\<close> or more and the table read is
  undefined behaviour. Such a state is reachable: constructed with sample rate 48000 and
  frequency 96000, the oscillator reads \<^verbatim>\<open>wavetable[2048]\<close> in its first
  \<^verbatim>\<open>render\<close>.
\<close>

theorem single_wrap_fails_beyond_sample_rate:
  "(\<forall>x y. is_f32 (Fin x) \<and> is_f32 (Fin y) \<and> 0 < y \<and> y \<le> x \<and> fs s = Fin y \<longrightarrow>
      fge (idx_inc (setF0 s (Fin x))) (f32_of_int (uint TAB_LEN))) \<and>
   (\<forall>a b. idx t = Fin a \<and> idx_inc t = Fin b \<and> 4096 \<le> a + b \<longrightarrow>
      fge (idx (fst (render t))) (f32_of_int (uint TAB_LEN)) \<and> (\<exists>e. snd (render t) = Inl e)) \<and>
   idx_inc (Oscillator sn raw (Fin 48000) (Fin 96000)) = Fin 4096 \<and>
   idx (fst (render (Oscillator sn raw (Fin 48000) (Fin 96000)))) = Fin 2048 \<and>
   fge (idx (fst (render (Oscillator sn raw (Fin 48000) (Fin 96000))))) (f32_of_int (uint TAB_LEN)) \<and>
   snd (render (Oscillator sn raw (Fin 48000) (Fin 96000))) = Inl Index_Out_Of_Bounds"
proof (intro conjI allI impI)
  fix x y
  assume "is_f32 (Fin x) \<and> is_f32 (Fin y) \<and> 0 < y \<and> y \<le> x \<and> fs s = Fin y"
  then show "fge (idx_inc (setF0 s (Fin x))) (f32_of_int (uint TAB_LEN))"
    using setF0_beyond_sample_rate by blast
next
  fix a b
  assume h: "idx t = Fin a \<and> idx_inc t = Fin b \<and> 4096 \<le> a + b"
  then show "fge (idx (fst (render t))) (f32_of_int (uint TAB_LEN))"
    using render_beyond_two_periods(1) by blast
  from h show "\<exists>e. snd (render t) = Inl e"
    using render_beyond_two_periods(2) by blast
qed (simp_all add: twice_sample_rate f32_TAB_LEN fge_def)

theorem single_wrap_fails_beyond_sample_rate_witness:
  "is_f32 (Fin 96000) \<and> is_f32 (Fin 48000) \<and> (0::real) < 48000 \<and> (48000::real) \<le> 96000 \<and>
   fs (raw0\<lparr>fs := Fin 48000\<rparr>) = Fin 48000 \<and>
   fge (idx_inc (setF0 (raw0\<lparr>fs := Fin 48000\<rparr>) (Fin 96000))) (f32_of_int (uint TAB_LEN)) \<and>
   idx (raw0\<lparr>idx := Fin 2047, idx_inc := Fin 2049\<rparr>) = Fin 2047 \<and>
   idx_inc (raw0\<lparr>idx := Fin 2047, idx_inc := Fin 2049\<rparr>) = Fin 2049 \<and>
   (4096::real) \<le> 2047 + 2049 \<and>
   fge (idx (fst (render (raw0\<lparr>idx := Fin 2047, idx_inc := Fin 2049\<rparr>)))) (f32_of_int (uint TAB_LEN)) \<and>
   (\<exists>e. snd (render (raw0\<lparr>idx := Fin 2047, idx_inc := Fin 2049\<rparr>)) = Inl e)"
proof -
  let ?s = "raw0\<lparr>fs := Fin 48000\<rparr>" and ?t = "raw0\<lparr>idx := Fin 2047, idx_inc := Fin 2049\<rparr>"
  have a: "is_f32 (Fin 96000)" "is_f32 (Fin 48000)"
    by (simp_all add: is_f32_def f32_eval)
  have b: "fs ?s = Fin 48000" "idx ?t = Fin 2047" "idx_inc ?t = Fin 2049" by simp_all
  from single_wrap_fails_beyond_sample_rate [of ?s ?t sin_rn raw0]
  have 1: "is_f32 (Fin 96000) \<and> is_f32 (Fin 48000) \<and> (0::real) < 48000 \<and> (48000::real) \<le> 96000 \<and>
        fs ?s = Fin 48000 \<longrightarrow>
      fge (idx_inc (setF0 ?s (Fin 96000))) (f32_of_int (uint TAB_LEN))"
    and 2: "idx ?t = Fin 2047 \<and> idx_inc ?t = Fin 2049 \<and> (4096::real) \<le> 2047 + 2049 \<longrightarrow>
      fge (idx (fst (render ?t))) (f32_of_int (uint TAB_LEN)) \<and> (\<exists>e. snd (render ?t) = Inl e)"
    by blast+
  from 1 a b have "fge (idx_inc (setF0 ?s (Fin 96000))) (f32_of_int (uint TAB_LEN))" by simp
  moreover from 2 b
  have "fge (idx (fst (render ?t))) (f32_of_int (uint TAB_LEN)) \<and> (\<exists>e. snd (render ?t) = Inl e)"
    by simp
  ultimately show ?thesis using a b by simp
qed

text \<open>
  C4. \<^verbatim>\<open>setF0\<close> changes the increment and nothing else: accumulator, table and
  sample rate are as before, for every state and argument. The next \<^verbatim>\<open>render\<close>
  advances from the accumulator the state already had and reads the table there; the
  phase is not reset.
\<close>
theorem setF0_changes_only_increment:
  "setF0 s f0_Hz = s\<lparr>idx_inc := idx_inc (setF0 s f0_Hz)\<rparr> \<and>
   idx (setF0 s f0_Hz) = idx s \<and>
   wavetable (setF0 s f0_Hz) = wavetable s \<and>
   fs (setF0 s f0_Hz) = fs s \<and>
   idx (fst (render (setF0 s f0_Hz))) = wrap (fadd (idx s) (idx_inc (setF0 s f0_Hz))) \<and>
   snd (render (setF0 s f0_Hz)) =
     (case int_of_f32 (wrap (fadd (idx s) (idx_inc (setF0 s f0_Hz)))) of
        Inl e \<Rightarrow> Inl e
      | Inr i \<Rightarrow> table_read (wavetable s) i)"
  by (simp add: render_state render_sample setF0_def split: sum.splits)

text \<open>
  C5. For every argument, \<^verbatim>\<open>setF0\<close> stores the binary32 value of
  \<^verbatim>\<open>TAB_LEN * f0_Hz / fs\<close>, whatever the previous increment was, with no check or
  clamp. For a finite non-zero argument whose product with 2048 does not overflow, and a
  finite non-zero sample rate, this is the real quotient \<open>2048 * f0_Hz / fs\<close> rounded
  once.
\<close>
theorem setF0_sets_increment_unchecked:
  "idx_inc (setF0 s f0_Hz) = fdiv (fmul (f32_of_int (uint TAB_LEN)) f0_Hz) (fs s) \<and>
   setF0 (s\<lparr>idx_inc := a\<rparr>) f0_Hz = setF0 s f0_Hz \<and>
   (\<forall>x y. f0_Hz = Fin x \<and> fs s = Fin y \<and> is_f32 (Fin x) \<and> x \<noteq> 0 \<and> y \<noteq> 0 \<and>
          \<bar>2048 * x\<bar> < 2 powi 128 \<longrightarrow>
      idx_inc (setF0 s f0_Hz) = fl (2048 * x / y))"
  using setF0_value [of _ _ s] by (simp add: setF0_def)

theorem setF0_sets_increment_unchecked_witness:
  "is_f32 (Fin (- 440)) \<and> \<bar>2048 * (- 440 :: real)\<bar> < 2 powi 128 \<and>
   idx_inc (setF0 (raw0\<lparr>idx_inc := Fin 7, fs := Fin 48000\<rparr>) (Fin (- 440))) =
     fl (2048 * (- 440) / 48000) \<and>
   fl (2048 * (- 440) / 48000) = Fin (- 9842633 / 524288)"
proof -
  let ?s = "raw0\<lparr>idx_inc := Fin 7, fs := Fin 48000\<rparr>"
  have a: "is_f32 (Fin (- 440))" by (simp add: is_f32_def f32_eval)
  have b: "\<bar>2048 * (- 440 :: real)\<bar> < 2 powi 128" by simp
  have c: "fs ?s = Fin 48000" by simp
  have d: "fl (2048 * (- 440) / 48000) = Fin (- 9842633 / 524288)"
    by (simp add: f32_eval)
  from setF0_sets_increment_unchecked [of ?s "Fin (- 440)" "Fin 7"]
  have "Fin (- 440) = Fin (- 440) \<and> fs ?s = Fin 48000 \<and> is_f32 (Fin (- 440)) \<and>
        (- 440 :: real) \<noteq> 0 \<and> (48000 :: real) \<noteq> 0 \<and> \<bar>2048 * (- 440 :: real)\<bar> < 2 powi 128 \<longrightarrow>
        idx_inc (setF0 ?s (Fin (- 440))) = fl (2048 * (- 440) / 48000)"
    by blast
  with a b c d show ?thesis by simp
qed

text \<open>
  C6. Let the sine of the C library be within \<open>eps \<le> 8e-6\<close> of the real sine on
  \<open>[0, 7]\<close>. After construction, the table entry at every index \<open>0 \<le> i < 2048\<close> is the
  library's sine at the binary32 value of \<^verbatim>\<open>M_2PI * i / TAB_LEN\<close>, and it is within
  \<open>1e-5\<close> of \<open>sin (2 pi i / 2048)\<close>: the rounding of the constant, of the product and of
  the quotient moves the argument by less than \<open>2e-6\<close>. Neither \<^verbatim>\<open>setF0\<close> nor
  \<^verbatim>\<open>render\<close> nor any sequence of them changes the table.
\<close>

theorem wavetable_is_sine_table:
  assumes "\<forall>x. 0 \<le> x \<and> x \<le> 7 \<longrightarrow> is_finite (sn (Fin x)) \<and> \<bar>rv (sn (Fin x)) - sin x\<bar> \<le> eps"
    and "eps \<le> 8 / 1000000" and "0 \<le> i" and "i < 2048"
  shows "wavetable (Oscillator sn raw rate f) i = sn (table_arg i) \<and>
         is_finite (wavetable (Oscillator sn raw rate f) i) \<and>
         \<bar>rv (wavetable (Oscillator sn raw rate f) i) - sin (2 * pi * of_int i / 2048)\<bar>
           \<le> 1 / 100000 \<and>
         wavetable (setF0 s g) = wavetable s \<and>
         wavetable (fst (render s)) = wavetable s \<and>
         wavetable (run (Oscillator sn raw rate f) ops) = wavetable (Oscillator sn raw rate f)"
proof -
  have w: "wavetable (Oscillator sn raw rate f) i = sn (table_arg i)"
    using assms(3,4) by (simp add: Oscillator_wavetable)
  note A = table_entry_accuracy [OF assms(1,3,4)]
  from A(2) assms(2)
  have "\<bar>rv (sn (table_arg i)) - sin (2 * pi * of_int i / 2048)\<bar> \<le> 1 / 100000"
    by linarith
  with w A(1) show ?thesis
    by (simp add: setF0_frame render_frame run_frame)
qed

theorem wavetable_is_sine_table_witness:
  "(\<forall>x. is_finite (sin_rn (Fin x)) \<and> \<bar>rv (sin_rn (Fin x)) - sin x\<bar> \<le> 1 / 10000000) \<and>
   (1 / 10000000 :: real) \<le> 8 / 1000000 \<and> (0::int) \<le> 512 \<and> (512::int) < 2048 \<and>
   \<bar>rv (wavetable (Oscillator sin_rn raw0 (Fin 48000) (Fin 440)) 512) - 1\<bar> \<le> 1 / 100000 \<and>
   wavetable (run (Oscillator sin_rn raw0 (Fin 48000) (Fin 440)) [Render, SetF0 (Fin 880), Render]) =
     wavetable (Oscillator sin_rn raw0 (Fin 48000) (Fin 440))"
proof -
  have a: "\<forall>x. 0 \<le> x \<and> x \<le> 7 \<longrightarrow>
      is_finite (sin_rn (Fin x)) \<and> \<bar>rv (sin_rn (Fin x)) - sin x\<bar> \<le> 1 / 10000000"
    using sin_rn_accurate by blast
  have b: "(1 / 10000000 :: real) \<le> 8 / 1000000" "(0::int) \<le> 512" "(512::int) < 2048"
    by simp_all
  have "sin (2 * pi * of_int 512 / 2048) = sin (pi / 2)" by simp
  then have s: "sin (2 * pi * of_int 512 / 2048) = 1" by (simp only: sin_pi_half)
  from wavetable_is_sine_table [OF a b, of raw0 "Fin 48000" "Fin 440" raw0 NaN
      "[Render, SetF0 (Fin 880), Render]"]
  have "\<bar>rv (wavetable (Oscillator sin_rn raw0 (Fin 48000) (Fin 440)) 512) -
          sin (2 * pi * of_int 512 / 2048)\<bar> \<le> 1 / 100000"
    and "wavetable (run (Oscillator sin_rn raw0 (Fin 48000) (Fin 440))
            [Render, SetF0 (Fin 880), Render]) =
         wavetable (Oscillator sin_rn raw0 (Fin 48000) (Fin 440))"
    by blast+
  moreover have "\<forall>x. is_finite (sin_rn (Fin x)) \<and> \<bar>rv (sin_rn (Fin x)) - sin x\<bar> \<le> 1 / 10000000"
    using sin_rn_accurate by blast
  ultimately show ?thesis using b s by (simp only: simp_thms)
qed

text \<open>
  C7, as amended. Let the sine of the C library return a value in \<open>[-1, 1]\<close> for every
  finite argument, and let the sample rate be a binary32 value of at most \<open>2^118\<close>.
  For an oscillator constructed with a frequency in \<open>(0, fs / 2)\<close> and any sequence of
  calls of \<^verbatim>\<open>setF0\<close> with such frequencies and of \<^verbatim>\<open>render\<close>, every call of
  \<^verbatim>\<open>render\<close> returns a table entry, and it lies in \<open>[-1, 1]\<close>.
\<close>

theorem rendered_samples_in_unit_range:
  assumes "\<forall>x. in_unit (sn (Fin x))"
    and "is_f32 (Fin y)" and "y \<le> 2 powi 118"
    and "sub_nyquist (Fin y) f" and "valid_ops (Fin y) ops"
  shows "list_all sample_in_unit (samples (Oscillator sn raw (Fin y) f) ops)"
proof -
  let ?o = "Oscillator sn raw (Fin y) f"
  from assms(4) obtain x where f: "f = Fin x" and x: "is_f32 (Fin x)" "0 < x" "x < y / 2"
    by (cases f) simp_all
  have fs: "fs ?o = Fin y" by (rule Oscillator_fields)
  have i0: "idx ?o = Fin 0" by (rule Oscillator_fields)
  have "idx_inc ?o = idx_inc (setF0 (raw\<lparr>fs := Fin y\<rparr>) (Fin x))"
    by (simp add: Oscillator_fields f setF0_def f32_TAB_LEN)
  moreover have "is_f32 (idx_inc (setF0 (raw\<lparr>fs := Fin y\<rparr>) (Fin x)))"
    "in_table_range (idx_inc (setF0 (raw\<lparr>fs := Fin y\<rparr>) (Fin x)))"
    using x assms(3) by (rule setF0_sub_nyquist; simp)+
  ultimately have inc: "is_f32 (idx_inc ?o)" "in_table_range (idx_inc ?o)" by simp_all
  show ?thesis
    using fs assms(3) _ inc(1) _ inc(2) _ assms(5)
  proof (rule samples_in_unit)
    show "is_f32 (idx ?o)" by (simp add: i0 is_f32_special)
    show "in_table_range (idx ?o)" by (simp add: i0 in_table_range_Fin)
    show "in_unit (wavetable ?o j)" if "0 \<le> j" "j < 2048" for j
      using assms(1) that by (rule Oscillator_table_in_unit)
  qed
qed

theorem rendered_samples_in_unit_range_witness:
  "(\<forall>x. in_unit (sin_rn (Fin x))) \<and> is_f32 (Fin 48000) \<and> (48000::real) \<le> 2 powi 118 \<and>
   sub_nyquist (Fin 48000) (Fin 440) \<and>
   valid_ops (Fin 48000) [Render, SetF0 (Fin 880), Render, Render] \<and>
   list_all sample_in_unit
     (samples (Oscillator sin_rn raw0 (Fin 48000) (Fin 440))
        [Render, SetF0 (Fin 880), Render, Render])"
proof -
  have a: "\<forall>x. in_unit (sin_rn (Fin x))" using sin_rn_in_unit by blast
  have b: "is_f32 (Fin 48000)" "is_f32 (Fin 440)" "is_f32 (Fin 880)"
    by (simp_all add: is_f32_def f32_eval)
  have c: "(48000::real) \<le> 2 powi 118" by simp
  have d: "sub_nyquist (Fin 48000) (Fin 440)" using b by simp
  have e: "valid_ops (Fin 48000) [Render, SetF0 (Fin 880), Render, Render]" using b by simp
  from rendered_samples_in_unit_range [OF a b(1) c d e, of raw0] a b c d e
  show ?thesis by blast
qed

text \<open>
  Without the bound on the sample rate the statement of C7 fails. For \<open>fs = 2^120\<close> the
  frequency \<open>2^118\<close> lies in \<open>(0, fs / 2)\<close>, yet \<^verbatim>\<open>TAB_LEN * f0_Hz\<close> overflows to
  infinity, the increment and the accumulator are infinite, and the first \<^verbatim>\<open>render\<close>
  casts an infinite value to \<^verbatim>\<open>int\<close>.
\<close>

theorem overflowing_frequency_counterexample:
  "is_f32 (Fin (2 powi 120)) \<and> sub_nyquist (Fin (2 powi 120)) (Fin (2 powi 118)) \<and>
   idx_inc (Oscillator sin_rn raw0 (Fin (2 powi 120)) (Fin (2 powi 118))) = PInf \<and>
   samples (Oscillator sin_rn raw0 (Fin (2 powi 120)) (Fin (2 powi 118))) [Render] =
     [Inl Cast_Out_Of_Range] \<and>
   \<not> list_all sample_in_unit
       (samples (Oscillator sin_rn raw0 (Fin (2 powi 120)) (Fin (2 powi 118))) [Render])"
proof -
  let ?o = "Oscillator sin_rn raw0 (Fin (2 powi 120)) (Fin (2 powi 118))"
  have a: "is_f32 (Fin (2 powi 120))" "is_f32 (Fin (2 powi 118))"
    by (simp_all add: is_f32_def f32_eval)
  have inc: "idx_inc ?o = PInf"
    by (simp add: Oscillator_fields fmul_def fdiv_def is_inf_def is_zero_def finf_def f32_eval)
  have "wrap (fadd (Fin 0) PInf) = PInf"
    by (simp add: wrap_def f32_TAB_LEN fadd_def fsub_def fge_def is_inf_def)
  then have "wrap (fadd (idx ?o) (idx_inc ?o)) = PInf"
    by (simp only: inc Oscillator_fields(1))
  then have "snd (render ?o) = Inl Cast_Out_Of_Range"
    by (simp only: render_sample int_of_f32.simps sum.case)
  with a inc show ?thesis by simp
qed

text \<open>
  C8, as amended. Constructed with sample rate 48000 and frequency 440, the oscillator
  has the increment \<open>9842633 / 524288\<close>, about 18.77. Its first \<^verbatim>\<open>render\<close> leaves the
  accumulator there, truncates it to 18 and returns \<^verbatim>\<open>wavetable[18]\<close>, the library's
  sine at the binary32 value of \<^verbatim>\<open>M_2PI * 18 / 2048\<close>; with a library sine within
  \<open>8e-6\<close> of the real sine this is within \<open>1e-5\<close> of \<open>sin (2 pi 18 / 2048)\<close> and within
  \<open>1e-4\<close> of 0.0552.
\<close>

theorem scenario_A_reads_entry_18:
  "idx_inc (Oscillator sn raw (Fin 48000) (Fin 440)) = Fin (9842633 / 524288) \<and>
   \<bar>9842633 / 524288 - 1877 / 100\<bar> \<le> (1 / 100 :: real) \<and>
   idx (fst (render (Oscillator sn raw (Fin 48000) (Fin 440)))) = Fin (9842633 / 524288) \<and>
   int_of_f32 (idx (fst (render (Oscillator sn raw (Fin 48000) (Fin 440))))) = Inr 18 \<and>
   snd (render (Oscillator sn raw (Fin 48000) (Fin 440))) =
     Inr (wavetable (Oscillator sn raw (Fin 48000) (Fin 440)) 18) \<and>
   wavetable (Oscillator sn raw (Fin 48000) (Fin 440)) 18 = sn (table_arg 18) \<and>
   (\<forall>eps. (\<forall>x. 0 \<le> x \<and> x \<le> 7 \<longrightarrow>
             is_finite (sn (Fin x)) \<and> \<bar>rv (sn (Fin x)) - sin x\<bar> \<le> eps) \<and>
          eps \<le> 8 / 1000000 \<longrightarrow>
      \<bar>rv (wavetable (Oscillator sn raw (Fin 48000) (Fin 440)) 18) -
         sin (2 * pi * of_int 18 / 2048)\<bar> \<le> 1 / 100000 \<and>
      \<bar>rv (wavetable (Oscillator sn raw (Fin 48000) (Fin 440)) 18) - 552 / 10000\<bar>
        \<le> 1 / 10000)"
proof -
  let ?o = "Oscillator sn raw (Fin 48000) (Fin 440)"
  have w: "wavetable ?o 18 = sn (table_arg 18)"
    by (simp add: Oscillator_wavetable)
  have acc: "\<bar>rv (wavetable ?o 18) - sin (2 * pi * of_int 18 / 2048)\<bar> \<le> 1 / 100000 \<and>
             \<bar>rv (wavetable ?o 18) - 552 / 10000\<bar> \<le> 1 / 10000"
    if h: "\<forall>x. 0 \<le> x \<and> x \<le> 7 \<longrightarrow> is_finite (sn (Fin x)) \<and> \<bar>rv (sn (Fin x)) - sin x\<bar> \<le> eps"
      and e: "eps \<le> 8 / 1000000" for eps
  proof -
    have "\<bar>rv (sn (table_arg 18)) - sin (2 * pi * of_int 18 / 2048)\<bar> \<le> eps + 2 / 1000000"
      using h by (rule table_entry_accuracy) simp_all
    with e sin_entry_18 show ?thesis unfolding w by linarith
  qed
  show ?thesis
  proof (intro conjI allI impI)
    show "idx_inc ?o = Fin (9842633 / 524288)" by (rule scenario_A_increment)
    show "\<bar>9842633 / 524288 - 1877 / 100\<bar> \<le> (1 / 100 :: real)" by simp
    show "idx (fst (render ?o)) = Fin (9842633 / 524288)" by (rule scenario_A_render(1))
    show "int_of_f32 (idx (fst (render ?o))) = Inr 18" by (rule scenario_A_render(2))
    show "snd (render ?o) = Inr (wavetable ?o 18)" by (simp only: scenario_A_render(3) w)
    show "wavetable ?o 18 = sn (table_arg 18)" by (rule w)
  next
    fix eps
    assume h: "(\<forall>x. 0 \<le> x \<and> x \<le> 7 \<longrightarrow>
             is_finite (sn (Fin x)) \<and> \<bar>rv (sn (Fin x)) - sin x\<bar> \<le> eps) \<and>
          eps \<le> 8 / 1000000"
    then show "\<bar>rv (wavetable ?o 18) - sin (2 * pi * of_int 18 / 2048)\<bar> \<le> 1 / 100000"
      using acc by blast
    from h show "\<bar>rv (wavetable ?o 18) - 552 / 10000\<bar> \<le> 1 / 10000"
      using acc by blast
  qed
qed

theorem scenario_A_reads_entry_18_witness:
  "(\<forall>x. is_finite (sin_rn (Fin x)) \<and> \<bar>rv (sin_rn (Fin x)) - sin x\<bar> \<le> 1 / 10000000) \<and>
   (1 / 10000000 :: real) \<le> 8 / 1000000 \<and>
   snd (render (Oscillator sin_rn raw0 (Fin 48000) (Fin 440))) =
     Inr (wavetable (Oscillator sin_rn raw0 (Fin 48000) (Fin 440)) 18) \<and>
   \<bar>rv (wavetable (Oscillator sin_rn raw0 (Fin 48000) (Fin 440)) 18) - 552 / 10000\<bar>
     \<le> 1 / 10000"
proof -
  let ?o = "Oscillator sin_rn raw0 (Fin 48000) (Fin 440)"
  have a: "\<forall>x. 0 \<le> x \<and> x \<le> 7 \<longrightarrow>
      is_finite (sin_rn (Fin x)) \<and> \<bar>rv (sin_rn (Fin x)) - sin x\<bar> \<le> 1 / 10000000"
    using sin_rn_accurate by blast
  have b: "(1 / 10000000 :: real) \<le> 8 / 1000000" by simp
  from scenario_A_reads_entry_18 [of sin_rn raw0]
  have r: "snd (render ?o) = Inr (wavetable ?o 18)"
    and "(\<forall>x. 0 \<le> x \<and> x \<le> 7 \<longrightarrow>
             is_finite (sin_rn (Fin x)) \<and> \<bar>rv (sin_rn (Fin x)) - sin x\<bar> \<le> 1 / 10000000) \<and>
          (1 / 10000000 :: real) \<le> 8 / 1000000 \<longrightarrow>
      \<bar>rv (wavetable ?o 18) - sin (2 * pi * of_int 18 / 2048)\<bar> \<le> 1 / 100000 \<and>
      \<bar>rv (wavetable ?o 18) - 552 / 10000\<bar> \<le> 1 / 10000"
    by blast+
  with a b have "\<bar>rv (wavetable ?o 18) - 552 / 10000\<bar> \<le> 1 / 10000" by blast
  moreover have "\<forall>x. is_finite (sin_rn (Fin x)) \<and> \<bar>rv (sin_rn (Fin x)) - sin x\<bar> \<le> 1 / 10000000"
    using sin_rn_accurate by blast
  ultimately show ?thesis using b r by (simp only: simp_thms)
qed

text \<open>
  C8 as the specification states it fails: the index read is 18, the sample is not the
  entry 19, and with the correctly rounded sine it is farther than 0.002 from 0.0582.
\<close>

theorem scenario_A_counterexample:
  "int_of_f32 (idx (fst (render (Oscillator sin_rn raw0 (Fin 48000) (Fin 440))))) = Inr 18 \<and>
   snd (render (Oscillator sin_rn raw0 (Fin 48000) (Fin 440))) = Inr (sin_rn (table_arg 18)) \<and>
   snd (render (Oscillator sin_rn raw0 (Fin 48000) (Fin 440))) \<noteq>
     Inr (wavetable (Oscillator sin_rn raw0 (Fin 48000) (Fin 440)) 19) \<and>
   2 / 1000 < \<bar>rv (sin_rn (table_arg 18)) - 582 / 10000\<bar>"
proof -
  let ?o = "Oscillator sin_rn raw0 (Fin 48000) (Fin 440)"
  have acc: "\<forall>x. 0 \<le> x \<and> x \<le> 7 \<longrightarrow>
      is_finite (sin_rn (Fin x)) \<and> \<bar>rv (sin_rn (Fin x)) - sin x\<bar> \<le> 1 / 10000000"
    using sin_rn_accurate by blast
  have "\<bar>rv (sin_rn (table_arg 18)) - sin (2 * pi * of_int 18 / 2048)\<bar>
          \<le> 1 / 10000000 + 2 / 1000000"
    using acc by (rule table_entry_accuracy) simp_all
  with sin_entry_18 have v18: "\<bar>rv (sin_rn (table_arg 18)) - 552 / 10000\<bar> \<le> 1 / 10000"
    by linarith
  then have far: "2 / 1000 < \<bar>rv (sin_rn (table_arg 18)) - 582 / 10000\<bar>" by linarith
  have "\<bar>rv (sin_rn (table_arg 19)) - sin (2 * pi * of_int 19 / 2048)\<bar>
          \<le> 1 / 10000000 + 2 / 1000000"
    using acc by (rule table_entry_accuracy) simp_all
  moreover have "582 / 10000 \<le> sin (2 * pi * of_int 19 / 2048)"
  proof -
    define t where "t = 2 * pi * of_int 19 / 2048"
    have lo: "58291 / 1000000 \<le> t" and hi: "t \<le> 58292 / 1000000"
      using pi_lower pi_upper unfolding t_def by simp_all
    have t0: "0 \<le> t" using lo by simp
    have "t ^ 3 \<le> (58292 / 1000000) ^ 3" "t ^ 5 \<le> (58292 / 1000000) ^ 5"
      using t0 hi by (simp_all add: power_mono)
    then have p: "t ^ 3 / 6 \<le> 4 / 100000" "\<bar>t\<bar> ^ 5 / 120 \<le> 1 / 100000"
      using t0 by (simp_all add: power_divide)
    with sin_taylor_5 [of t] lo have "582 / 10000 \<le> sin t" by linarith
    then show ?thesis by (simp only: t_def)
  qed
  ultimately have v19: "581 / 10000 \<le> rv (sin_rn (table_arg 19))" by linarith
  from v18 v19 have "rv (sin_rn (table_arg 18)) \<noteq> rv (sin_rn (table_arg 19))"
    by linarith
  then have "sin_rn (table_arg 18) \<noteq> sin_rn (table_arg 19)" by auto
  then have ne: "snd (render ?o) \<noteq> Inr (wavetable ?o 19)"
    by (simp add: scenario_A_render Oscillator_wavetable)
  from far ne scenario_A_render(2,3) [of sin_rn raw0] show ?thesis by (simp only: simp_thms)
qed

text \<open>
  C9. Constructed with sample rate 48000 and frequency 24000, the oscillator has the
  increment 1024, and its calls of \<^verbatim>\<open>render\<close> return \<^verbatim>\<open>wavetable[1024]\<close> and
  \<^verbatim>\<open>wavetable[0]\<close> in turn, beginning with \<^verbatim>\<open>wavetable[1024]\<close>.
\<close>
theorem nyquist_two_point_cycle:
  "idx_inc (Oscillator sn raw (Fin 48000) (Fin 24000)) = Fin 1024 \<and>
   snd (render (((\<lambda>t. fst (render t)) ^^ n) (Oscillator sn raw (Fin 48000) (Fin 24000)))) =
     Inr (wavetable (Oscillator sn raw (Fin 48000) (Fin 24000)) (if even n then 1024 else 0))"
proof -
  let ?o = "Oscillator sn raw (Fin 48000) (Fin 24000)"
  show ?thesis
  proof (cases "even n")
    case True
    then show ?thesis
      using render_at_0_inc_1024 [of "?o\<lparr>idx := Fin 0\<rparr>"]
      by (simp add: nyquist_states nyquist_increment)
  next
    case False
    then show ?thesis
      using render_at_1024_inc_1024 [of "?o\<lparr>idx := Fin 1024\<rparr>"]
      by (simp add: nyquist_states nyquist_increment)
  qed
qed

text \<open>
  C10. The member \<^verbatim>\<open>f0\<close> is written by no operation: the constructor, \<^verbatim>\<open>setF0\<close>
  and \<^verbatim>\<open>render\<close> leave it as it is, so after any sequence of calls it still holds the
  indeterminate value of the storage the object was constructed in.
\<close>
theorem f0_member_never_written:
  "f0 (Oscillator sn raw sample_rate f0_Hz) = f0 raw \<and>
   f0 (setF0 s f0_Hz) = f0 s \<and>
   f0 (fst (render s)) = f0 s \<and>
   f0 (run (Oscillator sn raw sample_rate f0_Hz) ops) = f0 raw"
  by (simp add: Oscillator_fields setF0_frame render_frame run_frame)

end
